theory Spec2Isabelle
  imports Main "HOL-Library.Word" "HOL-Library.Signed_Division"
    "HOL-Library.Char_ord" "HOL-Library.List_Lexorder" "HOL-Library.Product_Lexorder"
    "HOL-Library.Sublist"
begin

unbundle bit_operations_syntax

section \<open>The decoder state of \<^verbatim>\<open>decompress.c\<close>\<close>

text \<open>
  Every failing path of the C code prints a diagnostic on stderr and returns
  \<^verbatim>\<open>false\<close> (or \<^verbatim>\<open>NULL\<close>). The model returns the first diagnostic printed as
  the error value; the two silent \<^verbatim>\<open>return false\<close>/\<^verbatim>\<open>return NULL\<close> sites of
  the Huffman code get a constructor of their own.
\<close>

datatype error =
    Unexpected_buffer_length
  | Could_not_write_full_buffer
  | LEN_doesnt_match_NLEN
  | NULL_node_given
  | NULL_node_found
  | Expecting_valid_length_code
  | Unexpected_length_extra_value_31
  | Expecting_length_between_3_and_258
  | Expecting_valid_distance_code
  | Expecting_distance_between_1_and_32768
  | Invalid_back_reference
  | Copy_buffer_overrun
  | Expecting_length_less_than_288
  | Code_length_above_limit
  | Invalid_code_character
  | Code_position_taken
  | Invalid_literal_length_code
  | Invalid_code_length_code
  | Repeat_code_16_without_previous
  | Repeat_code_exceeds_total
  | Expecting_ll_code_count
  | Expecting_distance_code_count
  | Expecting_cl_code_count

text \<open>
  The output stream of the C library: the bytes written so far and an error state.
  \<^verbatim>\<open>fwrite\<close> on a stream in error writes nothing and returns 0, otherwise it appends
  every byte and returns their number.
\<close>

record FILE =
  f_data :: "8 word list"
  f_err :: bool

definition fwrite :: "8 word list \<Rightarrow> FILE \<Rightarrow> nat \<times> FILE" where
  "fwrite bytes fl =
     (if f_err fl then (0, fl) else (length bytes, fl\<lparr>f_data := f_data fl @ bytes\<rparr>))"

text \<open>
  \<^verbatim>\<open>struct decompression_data\<close>. The input buffer is a list whose length is
  \<^verbatim>\<open>buf_len\<close>; the arrays \<^verbatim>\<open>back_refs\<close> (32768 bytes) and \<^verbatim>\<open>out_buf\<close> (8192 bytes)
  live on the stack uninitialised and are functions from the index to the byte.
  \<^verbatim>\<open>size_t\<close> positions and the \<^verbatim>\<open>uint32_t\<close> output position never come near their
  width and are natural numbers; the field \<^verbatim>\<open>f\<close> is named \<open>out_file\<close>.
\<close>

record decompression_data =
  buf :: "8 word list"
  buf_pos :: nat
  byte_pos :: "8 word"
  back_refs :: "nat \<Rightarrow> 8 word"
  back_refs_pos :: "16 word"
  back_refs_filled :: bool
  out_buf :: "nat \<Rightarrow> 8 word"
  out_pos :: nat
  out_file :: FILE

text \<open>
  The C functions change \<^verbatim>\<open>*data\<close> in place, so the caller of a failing function
  sees the state as the failure left it: a failure is the diagnostic together with
  that state.
\<close>

type_synonym 'a result = "error \<times> decompression_data + 'a"

definition failure :: "'a result \<Rightarrow> error option" where
  "failure r = (case r of Inl (e, d) \<Rightarrow> Some e | Inr x \<Rightarrow> None)"

definition buf_len :: "decompression_data \<Rightarrow> nat" where
  "buf_len d = length (buf d)"

definition MAX_DISTANCE :: nat where
  "MAX_DISTANCE = 32768"

definition OUT_BUF_SIZE :: nat where
  "OUT_BUF_SIZE = 8192"

text \<open>\<^verbatim>\<open>struct value_and_bits\<close> and the two tables of RFC 1951 section 3.2.5.\<close>

record value_and_bits =
  "value" :: "16 word"
  extra_bits :: nat

definition vb :: "16 word \<Rightarrow> nat \<Rightarrow> value_and_bits" where
  "vb v e = \<lparr>value = v, extra_bits = e\<rparr>"

definition length_data :: "value_and_bits list" where
  "length_data =
     [vb 3 0, vb 4 0, vb 5 0, vb 6 0, vb 7 0, vb 8 0, vb 9 0, vb 10 0,
      vb 11 1, vb 13 1, vb 15 1, vb 17 1, vb 19 2, vb 23 2, vb 27 2, vb 31 2,
      vb 35 3, vb 43 3, vb 51 3, vb 59 3, vb 67 4, vb 83 4, vb 99 4, vb 115 4,
      vb 131 5, vb 163 5, vb 195 5, vb 227 5, vb 258 0]"

definition dist_data :: "value_and_bits list" where
  "dist_data =
     [vb 1 0, vb 2 0, vb 3 0, vb 4 0, vb 5 1, vb 7 1, vb 9 2, vb 13 2,
      vb 17 3, vb 25 3, vb 33 4, vb 49 4, vb 65 5, vb 97 5, vb 129 6, vb 193 6,
      vb 257 7, vb 385 7, vb 513 8, vb 769 8, vb 1025 9, vb 1537 9,
      vb 2049 10, vb 3073 10, vb 4097 11, vb 6145 11, vb 8193 12, vb 12289 12,
      vb 16385 13, vb 24577 13]"

subsection \<open>The bit cursor\<close>

definition increment_bit_position :: "decompression_data \<Rightarrow> decompression_data" where
  "increment_bit_position d =
     (if byte_pos d = 7 then d\<lparr>byte_pos := 0, buf_pos := buf_pos d + 1\<rparr>
      else d\<lparr>byte_pos := byte_pos d + 1\<rparr>)"

text \<open>\<^verbatim>\<open>(data->buf[data->buf_pos] >> data->byte_pos) & 1\<close>\<close>

definition current_bit :: "decompression_data \<Rightarrow> bool" where
  "current_bit d = bit (buf d ! buf_pos d) (unat (byte_pos d))"

text \<open>
  \<^verbatim>\<open>read_bits\<close>: the loop \<^verbatim>\<open>for (i = 0; i < bits; ++i)\<close> with the accumulator
  \<^verbatim>\<open>tmp\<close>; \<^verbatim>\<open>tmp |= (uint16_t) (1u << i)\<close> sets bit \<open>i\<close> of the 16-bit value.
\<close>

function read_bits_loop ::
  "decompression_data \<Rightarrow> nat \<Rightarrow> nat \<Rightarrow> 16 word \<Rightarrow> (16 word \<times> decompression_data) result"
where
  "read_bits_loop d i bits tmp =
     (if i < bits then
        (if buf_len d \<le> buf_pos d then Inl (Unexpected_buffer_length, d)
         else read_bits_loop (increment_bit_position d) (i + 1) bits
                (if current_bit d then tmp OR push_bit i 1 else tmp))
      else Inr (tmp, d))"
  by pat_completeness auto
termination
  by (relation "measure (\<lambda>(d, i, bits, tmp). bits - i)") auto

declare read_bits_loop.simps [simp del]

definition read_bits ::
  "decompression_data \<Rightarrow> nat \<Rightarrow> (16 word \<times> decompression_data) result"
where
  "read_bits d bits = read_bits_loop d 0 bits 0"

subsection \<open>Length and distance codes\<close>

definition is_length_code :: "int \<Rightarrow> bool" where
  "is_length_code c = (257 \<le> c \<and> c \<le> 285)"

definition is_literal_code :: "int \<Rightarrow> bool" where
  "is_literal_code c = (0 \<le> c \<and> c \<le> 255)"

definition is_literal_length_code :: "int \<Rightarrow> bool" where
  "is_literal_length_code c = (0 \<le> c \<and> c \<le> 285)"

definition is_distance_code :: "int \<Rightarrow> bool" where
  "is_distance_code c = (0 \<le> c \<and> c \<le> 29)"

definition is_code_length_code :: "int \<Rightarrow> bool" where
  "is_code_length_code c = (0 \<le> c \<and> c \<le> 18)"

text \<open>
  \<^verbatim>\<open>length_from_length_code\<close>; the code is a \<^verbatim>\<open>uint16_t\<close> that the callers take
  from a tree leaf, an integer here.
\<close>

definition length_from_length_code ::
  "decompression_data \<Rightarrow> int \<Rightarrow> (16 word \<times> decompression_data) result"
where
  "length_from_length_code d c =
     (if \<not> is_length_code c then Inl (Expecting_valid_length_code, d)
      else
        let length_start = value (length_data ! nat (c - 257));
            extra = extra_bits (length_data ! nat (c - 257))
        in case read_bits d extra of
             Inl e \<Rightarrow> Inl e
           | Inr (extra_bits_value, d') \<Rightarrow>
               if c = 284 \<and> extra_bits_value = 31 then Inl (Unexpected_length_extra_value_31, d')
               else
                 let l = length_start + extra_bits_value
                 in if l > 258 \<or> l < 3 then Inl (Expecting_length_between_3_and_258, d')
                    else Inr (l, d'))"

text \<open>\<^verbatim>\<open>distance_from_distance_code\<close>; the code is a \<^verbatim>\<open>uint8_t\<close>.\<close>

definition distance_from_distance_code ::
  "decompression_data \<Rightarrow> 8 word \<Rightarrow> (16 word \<times> decompression_data) result"
where
  "distance_from_distance_code d c =
     (if \<not> is_distance_code (uint c) then Inl (Expecting_valid_distance_code, d)
      else
        let distance_start = value (dist_data ! unat c);
            extra = extra_bits (dist_data ! unat c)
        in case read_bits d extra of
             Inl e \<Rightarrow> Inl e
           | Inr (extra_bits_value, d') \<Rightarrow>
               let dist = distance_start + extra_bits_value
               in if dist < 1 \<or> dist > 32768 then Inl (Expecting_distance_between_1_and_32768, d')
                  else Inr (dist, d'))"

subsection \<open>The output buffer and the sliding window\<close>

text \<open>
  \<^verbatim>\<open>handle_literal_codes\<close>: the loop over \<^verbatim>\<open>codes[0..len)\<close>, then the flush of
  a buffer that the last byte filled.
\<close>

definition flush_if_full :: "decompression_data \<Rightarrow> decompression_data result" where
  "flush_if_full d =
     (if out_pos d = OUT_BUF_SIZE then
        (case fwrite (map (out_buf d) [0..<out_pos d]) (out_file d) of
           (written, fl) \<Rightarrow>
             if written \<noteq> out_pos d then Inl (Could_not_write_full_buffer, d)
             else Inr (d\<lparr>out_file := fl, out_pos := 0\<rparr>))
      else Inr d)"

definition put_byte :: "decompression_data \<Rightarrow> 8 word \<Rightarrow> decompression_data" where
  "put_byte d c =
     (let d1 = d\<lparr>out_buf := (out_buf d)(out_pos d := c), out_pos := out_pos d + 1\<rparr>;
          d2 = d1\<lparr>back_refs := (back_refs d1)(unat (back_refs_pos d1) := c)\<rparr>;
          d3 = d2\<lparr>back_refs_pos := of_nat ((unat (back_refs_pos d2) + 1) mod MAX_DISTANCE)\<rparr>
      in if \<not> back_refs_filled d3 \<and> back_refs_pos d3 = 0
         then d3\<lparr>back_refs_filled := True\<rparr> else d3)"

fun handle_literal_codes_loop ::
  "decompression_data \<Rightarrow> 8 word list \<Rightarrow> decompression_data result"
where
  "handle_literal_codes_loop d [] = Inr d"
| "handle_literal_codes_loop d (c # cs) =
     (case flush_if_full d of
        Inl e \<Rightarrow> Inl e
      | Inr d' \<Rightarrow> handle_literal_codes_loop (put_byte d' c) cs)"

definition handle_literal_codes ::
  "decompression_data \<Rightarrow> 8 word list \<Rightarrow> decompression_data result"
where
  "handle_literal_codes d codes =
     (case handle_literal_codes_loop d codes of
        Inl e \<Rightarrow> Inl e
      | Inr d' \<Rightarrow> flush_if_full d')"

text \<open>Every byte handed to the sink so far: what was flushed and what is pending.\<close>

definition emitted :: "decompression_data \<Rightarrow> 8 word list" where
  "emitted d = f_data (out_file d) @ map (out_buf d) [0..<out_pos d]"

subsection \<open>Stored blocks\<close>

text \<open>
  \<^verbatim>\<open>decompress_block_type_00\<close>. \<^verbatim>\<open>LEN\<close> and \<^verbatim>\<open>NLEN\<close> are little-endian
  \<^verbatim>\<open>uint16_t\<close>; the payload \<^verbatim>\<open>data->buf + data->buf_pos\<close> of \<^verbatim>\<open>LEN\<close> bytes is
  the list \<open>take LEN (drop buf_pos buf)\<close>.
\<close>

definition align_to_byte :: "decompression_data \<Rightarrow> decompression_data" where
  "align_to_byte d =
     (if byte_pos d \<noteq> 0 then d\<lparr>buf_pos := buf_pos d + 1, byte_pos := 0\<rparr> else d)"



subsection \<open>Back references\<close>

text \<open>
  \<^verbatim>\<open>copy_bytes_from_distance\<close>. The start position is computed in \<^verbatim>\<open>int\<close> with C's
  truncating remainder and stored in a \<^verbatim>\<open>uint16_t\<close>. The temporary
  \<^verbatim>\<open>bytes_to_copy[258]\<close> is a function from the index; a write at an index of 258
  or more is outside the array, where C defines nothing, and ends the model with
  \<open>Copy_buffer_overrun\<close>. The array is uninitialised; only entries written by the
  loop are read afterwards.
\<close>

definition copy_start_pos :: "decompression_data \<Rightarrow> 16 word \<Rightarrow> 16 word" where
  "copy_start_pos d distance =
     word_of_int ((uint (back_refs_pos d) - uint distance + int MAX_DISTANCE)
                    smod int MAX_DISTANCE)"

text \<open>
  \<^verbatim>\<open>tmp = (tmp + 1) % MAX_DISTANCE; if (tmp == data->back_refs_pos) tmp = copy_start_pos;\<close>
\<close>

definition next_copy_pos :: "decompression_data \<Rightarrow> 16 word \<Rightarrow> 16 word \<Rightarrow> 16 word" where
  "next_copy_pos d start tmp =
     (let tmp1 = (of_nat ((unat tmp + 1) mod MAX_DISTANCE) :: 16 word)
      in if tmp1 = back_refs_pos d then start else tmp1)"

function copy_loop ::
  "decompression_data \<Rightarrow> 16 word \<Rightarrow> 16 word \<Rightarrow> nat \<Rightarrow> nat \<Rightarrow> (nat \<Rightarrow> 8 word)
     \<Rightarrow> error + (nat \<Rightarrow> 8 word)"
where
  "copy_loop d start tmp i n bytes_to_copy =
     (if i < n then
        (if 258 \<le> i then Inl Copy_buffer_overrun
         else
           copy_loop d start (next_copy_pos d start tmp) (i + 1) n
             (bytes_to_copy(i := back_refs d (unat tmp))))
      else Inr bytes_to_copy)"
  by pat_completeness auto
termination
  by (relation "measure (\<lambda>(d, start, tmp, i, n, bytes). n - i)") auto

declare copy_loop.simps [simp del]

definition copy_bytes_from_distance ::
  "decompression_data \<Rightarrow> 16 word \<Rightarrow> 16 word \<Rightarrow> decompression_data result"
where
  "copy_bytes_from_distance d len_arg distance =
     (let start = copy_start_pos d distance
      in if \<not> back_refs_filled d \<and> start \<ge> back_refs_pos d then Inl (Invalid_back_reference, d)
         else
           (case copy_loop d start start 0 (unat len_arg) (\<lambda>_. 0) of
              Inl e \<Rightarrow> Inl (e, d)
            | Inr bytes_to_copy \<Rightarrow>
                handle_literal_codes d (map bytes_to_copy [0..<unat len_arg])))"

section \<open>Canonical Huffman codes (\<^verbatim>\<open>huffman_code.c\<close>)\<close>

text \<open>
  \<^verbatim>\<open>struct huffman\<close>: the code as a string of the characters 0 and 1, and its length.
  Code lengths are \<^verbatim>\<open>uint8_t\<close> values that the code only compares and uses as
  indices: natural numbers here. The counters and the codes are \<^verbatim>\<open>uint16_t\<close>, and
  the code arithmetic wraps.
\<close>

record huffman =
  huffman_code :: string
  len :: nat

text \<open>\<^verbatim>\<open>get_huffman_code_string\<close>: character \<open>i\<close> is bit \<open>len - i - 1\<close> of the code.\<close>

definition get_huffman_code_string :: "16 word \<Rightarrow> nat \<Rightarrow> string" where
  "get_huffman_code_string c n =
     map (\<lambda>i. if bit c (n - i - 1) then CHR ''1'' else CHR ''0'') [0..<n]"

text \<open>The first loop: reject a length above the limit or above 15, count the others.\<close>

fun count_code_lengths :: "nat list \<Rightarrow> nat \<Rightarrow> 16 word list \<Rightarrow> error + 16 word list" where
  "count_code_lengths [] limit counts = Inr counts"
| "count_code_lengths (l # ls) limit counts =
     (if l > limit \<or> l > 15 then Inl Code_length_above_limit
      else count_code_lengths ls limit (counts[l := counts ! l + 1]))"

text \<open>The second loop: \<^verbatim>\<open>for (bits = 1; bits < 16; ++bits)\<close>.\<close>

function next_code_loop ::
  "16 word list \<Rightarrow> nat \<Rightarrow> 16 word \<Rightarrow> 16 word list \<Rightarrow> 16 word list"
where
  "next_code_loop counts bits c next_code_for_length =
     (if bits < 16 then
        (let c' = push_bit 1 (c + counts ! (bits - 1))
         in next_code_loop counts (bits + 1) c' (next_code_for_length[bits := c']))
      else next_code_for_length)"
  by pat_completeness auto
termination
  by (relation "measure (\<lambda>(counts, bits, c, next). 16 - bits)") auto

declare next_code_loop.simps [simp del]

text \<open>The third loop: one code per symbol, none for a symbol of length 0.\<close>

fun assign_codes :: "nat list \<Rightarrow> 16 word list \<Rightarrow> huffman list" where
  "assign_codes [] next_code_for_length = []"
| "assign_codes (l # ls) next_code_for_length =
     (if l = 0 then \<lparr>huffman_code = [], len = 0\<rparr> # assign_codes ls next_code_for_length
      else \<lparr>huffman_code = get_huffman_code_string (next_code_for_length ! l) l, len = l\<rparr>
           # assign_codes ls (next_code_for_length[l := next_code_for_length ! l + 1]))"

definition generate_huffman_codes :: "nat list \<Rightarrow> nat \<Rightarrow> error + huffman list" where
  "generate_huffman_codes code_lengths limit =
     (if length code_lengths > 288 then Inl Expecting_length_less_than_288
      else
        (case count_code_lengths code_lengths limit (replicate 16 0) of
           Inl e \<Rightarrow> Inl e
         | Inr code_length_counts \<Rightarrow>
             Inr (assign_codes code_lengths
                    (next_code_loop (code_length_counts[0 := 0]) 1 0 (replicate 16 0)))))"

section \<open>Huffman trees (\<^verbatim>\<open>huffman_tree.c\<close>)\<close>

text \<open>
  \<^verbatim>\<open>struct node\<close> behind a pointer that may be \<^verbatim>\<open>NULL\<close>. The tree is built in
  place in C; no node is shared, so the model rebuilds the path it walks.
  \<^verbatim>\<open>malloc\<close> always returns a node.
\<close>

datatype node = NULL | Node (left: node) (right: node) (code: int)

text \<open>
  The inner loop of \<^verbatim>\<open>create_huffman_tree\<close> over the characters of one code, from
  the node \<^verbatim>\<open>cur\<close>; \<^verbatim>\<open>j == len - 1\<close> holds at the last character. \<^verbatim>\<open>cur\<close> is
  never \<^verbatim>\<open>NULL\<close>: it starts at the root and moves to a node just attached.
\<close>

fun insert_code :: "string \<Rightarrow> int \<Rightarrow> node \<Rightarrow> error + node" where
  "insert_code [] i cur = Inr cur"
| "insert_code (b # rest) i NULL = Inl NULL_node_given"
| "insert_code (b # rest) i (Node l r c) =
     (if b \<noteq> CHR ''1'' \<and> b \<noteq> CHR ''0'' then Inl Invalid_code_character
      else
        let tmp = (if b = CHR ''1'' then r else l)
        in if (rest = [] \<and> tmp \<noteq> NULL) \<or> (rest \<noteq> [] \<and> tmp \<noteq> NULL \<and> code tmp \<noteq> - 1)
           then Inl Code_position_taken
           else
             let tmp1 = (if tmp = NULL then Node NULL NULL (- 1) else tmp);
                 tmp2 = (if rest = [] then Node (left tmp1) (right tmp1) i else tmp1)
             in (case insert_code rest i tmp2 of
                   Inl e \<Rightarrow> Inl e
                 | Inr t \<Rightarrow> Inr (if b = CHR ''1'' then Node l t c else Node t r c)))"

text \<open>The outer loop over the symbols \<open>i\<close>, \<open>i + 1\<close>, ...\<close>

fun insert_codes :: "huffman list \<Rightarrow> int \<Rightarrow> node \<Rightarrow> error + node" where
  "insert_codes [] i root = Inr root"
| "insert_codes (h # hs) i root =
     (case insert_code (take (len h) (huffman_code h)) i root of
        Inl e \<Rightarrow> Inl e
      | Inr root' \<Rightarrow> insert_codes hs (i + 1) root')"

definition create_huffman_tree :: "nat list \<Rightarrow> nat \<Rightarrow> error + node" where
  "create_huffman_tree code_lengths max_huffman_code_length =
     (if length code_lengths > 288 then Inl Expecting_length_less_than_288
      else
        (case generate_huffman_codes code_lengths max_huffman_code_length of
           Inl e \<Rightarrow> Inl e
         | Inr codes \<Rightarrow> insert_codes codes 0 (Node NULL NULL (- 1))))"

subsection \<open>Decoding one symbol\<close>

text \<open>
  \<^verbatim>\<open>find_huffman_code\<close>: the walk \<^verbatim>\<open>while (cur->code == -1)\<close> goes to a child at
  each step, so it is a recursion on the tree.
\<close>

fun find_walk :: "decompression_data \<Rightarrow> node \<Rightarrow> (node \<times> decompression_data) result" where
  "find_walk d NULL = Inl (NULL_node_found, d)"
| "find_walk d (Node l r c) =
     (if c = - 1 then
        (if buf_len d \<le> buf_pos d then Inl (Unexpected_buffer_length, d)
         else find_walk (increment_bit_position d) (if current_bit d then r else l))
      else Inr (Node l r c, d))"

definition find_huffman_code ::
  "decompression_data \<Rightarrow> node \<Rightarrow> (node \<times> decompression_data) result"
where
  "find_huffman_code d root = (if root = NULL then Inl (NULL_node_given, d) else find_walk d root)"

section \<open>Fixed-Huffman blocks\<close>

text \<open>The code lengths of RFC 1951 section 3.2.6, as the four loops fill them in.\<close>

definition fixed_lengths :: "nat list" where
  "fixed_lengths = replicate 144 8 @ replicate 112 9 @ replicate 24 7 @ replicate 8 8"

text \<open>
  The length branch of the loop of \<^verbatim>\<open>decompress_block_type_01\<close> up to the call of
  \<^verbatim>\<open>copy_bytes_from_distance\<close>: the length, then five bits read with
  \<^verbatim>\<open>read_bits\<close> as the distance code, then the distance. It returns the arguments
  of the copy.
\<close>

definition back_reference_01 ::
  "decompression_data \<Rightarrow> int \<Rightarrow> (16 word \<times> 16 word \<times> decompression_data) result"
where
  "back_reference_01 d c =
     (case length_from_length_code d c of
        Inl e \<Rightarrow> Inl e
      | Inr (length_arg, d1) \<Rightarrow>
          (case read_bits d1 5 of
             Inl e \<Rightarrow> Inl e
           | Inr (tmp, d2) \<Rightarrow>
               (case distance_from_distance_code d2 (ucast tmp) of
                  Inl e \<Rightarrow> Inl e
                | Inr (distance, d3) \<Rightarrow> Inr (length_arg, distance, d3))))"

text \<open>
  One iteration of \<^verbatim>\<open>while (true)\<close> in \<^verbatim>\<open>decompress_block_type_01\<close>; the flag is
  true when the iteration ends the block at symbol 256.
\<close>

definition expand_symbol_01 ::
  "decompression_data \<Rightarrow> node \<Rightarrow> (bool \<times> decompression_data) result"
where
  "expand_symbol_01 d root =
     (case find_huffman_code d root of
        Inl e \<Rightarrow> Inl e
      | Inr (edge_node, d1) \<Rightarrow>
          if \<not> is_literal_length_code (code edge_node) then Inl (Invalid_literal_length_code, d1)
          else if code edge_node = 256 then Inr (True, d1)
          else if is_literal_code (code edge_node) then
            (case handle_literal_codes d1 [word_of_int (code edge_node)] of
               Inl e \<Rightarrow> Inl e
             | Inr d2 \<Rightarrow> Inr (False, d2))
          else if is_length_code (code edge_node) then
            (case back_reference_01 d1 (code edge_node) of
               Inl e \<Rightarrow> Inl e
             | Inr (length_arg, distance, d2) \<Rightarrow>
                 (case copy_bytes_from_distance d2 length_arg distance of
                    Inl e \<Rightarrow> Inl e
                  | Inr d3 \<Rightarrow> Inr (False, d3)))
          else Inr (False, d1))"

text \<open>
  The loop itself. Nothing in it bounds the number of iterations (a root that is a
  leaf is returned without reading a bit), so the result is optional: \<open>None\<close> is a
  loop that never returns.
\<close>

partial_function (option) symbols_loop_01 ::
  "decompression_data \<Rightarrow> node \<Rightarrow> decompression_data result option"
where
  "symbols_loop_01 d root =
     (case expand_symbol_01 d root of
        Inl e \<Rightarrow> Some (Inl e)
      | Inr (stop, d') \<Rightarrow> if stop then Some (Inr d') else symbols_loop_01 d' root)"

declare symbols_loop_01.simps [code]

definition decompress_block_type_01 ::
  "decompression_data \<Rightarrow> decompression_data result option"
where
  "decompress_block_type_01 d =
     (case create_huffman_tree fixed_lengths 15 of
        Inl e \<Rightarrow> Some (Inl (e, d))
      | Inr root \<Rightarrow> symbols_loop_01 d root)"

section \<open>Dynamic-Huffman blocks\<close>

text \<open>
  The state of the code-length loop of \<^verbatim>\<open>decompress_block_type_10\<close>: the cursor,
  the two arrays \<^verbatim>\<open>ll_code_lengths[286]\<close> and \<^verbatim>\<open>d_code_lengths[32]\<close>,
  \<^verbatim>\<open>previous_code_length\<close> and \<^verbatim>\<open>cnt\<close>.
\<close>

record cl_state =
  data :: decompression_data
  ll_code_lengths :: "nat list"
  d_code_lengths :: "nat list"
  previous_code_length :: nat
  cnt :: nat

text \<open>
  The store that every branch of the loop makes:
  \<^verbatim>\<open>if (cnt < ll_code_cnt) ll_code_lengths[cnt] = v; else d_code_lengths[cnt - ll_code_cnt] = v; cnt++;\<close>
\<close>

definition store_code_length :: "nat \<Rightarrow> nat \<Rightarrow> cl_state \<Rightarrow> cl_state" where
  "store_code_length ll_code_cnt v s =
     (if cnt s < ll_code_cnt
      then s\<lparr>ll_code_lengths := (ll_code_lengths s)[cnt s := v], cnt := cnt s + 1\<rparr>
      else s\<lparr>d_code_lengths := (d_code_lengths s)[cnt s - ll_code_cnt := v], cnt := cnt s + 1\<rparr>)"

text \<open>\<^verbatim>\<open>while (tmp--)\<close> with its check of \<^verbatim>\<open>cnt >= total\<close>, storing \<open>v\<close> each time.\<close>

fun repeat_loop :: "nat \<Rightarrow> nat \<Rightarrow> nat \<Rightarrow> nat \<Rightarrow> cl_state \<Rightarrow> cl_state result" where
  "repeat_loop 0 v ll_code_cnt total_cnt s = Inr s"
| "repeat_loop (Suc n) v ll_code_cnt total_cnt s =
     (if total_cnt \<le> cnt s then Inl (Repeat_code_exceeds_total, data s)
      else repeat_loop n v ll_code_cnt total_cnt (store_code_length ll_code_cnt v s))"

text \<open>One iteration of \<^verbatim>\<open>while (cnt < total)\<close>; \<open>total_cnt\<close> is \<^verbatim>\<open>total\<close>.\<close>

definition cl_step :: "node \<Rightarrow> nat \<Rightarrow> nat \<Rightarrow> cl_state \<Rightarrow> cl_state result" where
  "cl_step cl_root ll_code_cnt total_cnt s =
     (case find_huffman_code (data s) cl_root of
        Inl e \<Rightarrow> Inl e
      | Inr (edge_node, d1) \<Rightarrow>
          if \<not> is_code_length_code (code edge_node) then Inl (Invalid_code_length_code, d1)
          else if code edge_node = 16 \<and> cnt s = 0 then Inl (Repeat_code_16_without_previous, d1)
          else if 0 \<le> code edge_node \<and> code edge_node \<le> 15 then
            Inr ((store_code_length ll_code_cnt (nat (code edge_node)) (s\<lparr>data := d1\<rparr>))
                   \<lparr>previous_code_length := nat (code edge_node)\<rparr>)
          else if code edge_node = 16 then
            (case read_bits d1 2 of
               Inl e \<Rightarrow> Inl e
             | Inr (tmp, d2) \<Rightarrow>
                 repeat_loop (unat (tmp + 3)) (previous_code_length s) ll_code_cnt total_cnt
                   (s\<lparr>data := d2\<rparr>))
          else if code edge_node = 17 \<or> code edge_node = 18 then
            (let extra = (if code edge_node = 17 then 3 else 7);
                 plus = (if code edge_node = 17 then 3 else 11)
             in case read_bits d1 extra of
                  Inl e \<Rightarrow> Inl e
                | Inr (tmp, d2) \<Rightarrow>
                    repeat_loop (unat (tmp + plus)) 0 ll_code_cnt total_cnt
                      (s\<lparr>data := d2, previous_code_length := 0\<rparr>))
          else Inr (s\<lparr>data := d1\<rparr>))"

text \<open>
  The bits that \<^verbatim>\<open>read_bits\<close> returns lie below the bit count; with it every
  repeat count is positive and the code-length loop makes progress.
\<close>

lemma read_bits_loop_high:
  "read_bits_loop d i bits tmp = Inr (v, d') \<Longrightarrow> \<forall>k\<ge>i. \<not> bit tmp k \<Longrightarrow> i \<le> bits
   \<Longrightarrow> \<forall>k\<ge>bits. \<not> bit v k"
proof (induction d i bits tmp rule: read_bits_loop.induct)
  case (1 d i bits tmp)
  show ?case
  proof (cases "i < bits")
    case True
    with "1.prems" have nb: "\<not> buf_len d \<le> buf_pos d"
      by (auto simp: read_bits_loop.simps [of d i] split: if_splits)
    let ?t = "if current_bit d then tmp OR push_bit i 1 else tmp"
    from "1.prems" True nb
    have r: "read_bits_loop (increment_bit_position d) (i + 1) bits ?t = Inr (v, d')"
      by (simp add: read_bits_loop.simps [of d i])
    have h: "\<forall>k\<ge>i + 1. \<not> bit ?t k"
      using "1.prems"(2) by (auto simp: bit_simps)
    from "1.IH" [OF True nb r h] True show ?thesis by simp
  next
    case False
    with "1.prems" show ?thesis
      by (auto simp: read_bits_loop.simps [of d i])
  qed
qed

lemma read_bits_bound:
  assumes "read_bits d bits = Inr (v, d')"
  shows "unat v < 2 ^ bits"
proof -
  have "\<forall>k\<ge>bits. \<not> bit v k"
    using read_bits_loop_high [of d 0 bits 0 v d'] assms by (simp add: read_bits_def)
  then have "take_bit bits v = v"
    by (intro bit_eqI) (auto simp: bit_simps not_le [symmetric])
  then have "unat v = take_bit bits (unat v)"
    by (metis unsigned_take_bit_eq)
  then show ?thesis
    by (metis take_bit_nat_less_exp)
qed

lemma repeat_loop_cnt:
  "repeat_loop n v ll_code_cnt total_cnt s = Inr s' \<Longrightarrow> cnt s' = cnt s + n"
  by (induction n arbitrary: s) (auto simp: store_code_length_def split: if_splits)

lemma cl_step_cnt:
  assumes "cl_step cl_root ll_code_cnt total_cnt s = Inr s'"
  shows "cnt s < cnt s'"
proof -
  have r: "0 < unat (tmp + k)" if "read_bits d n = Inr (tmp, d')" "n \<le> 7" "0 < k" "k \<le> 11"
    for tmp k :: "16 word" and d d' n
  proof -
    have "unat tmp < 2 ^ n" using that(1) by (rule read_bits_bound)
    also have "(2::nat) ^ n \<le> 2 ^ 7" using that(2) by (intro power_increasing) auto
    finally have "unat tmp < 128" by simp
    moreover have "unat k \<le> 11" using that(4) by (simp add: word_le_nat_alt)
    moreover have "0 < unat k" using that(3) by (simp add: word_less_nat_alt)
    ultimately have "unat (tmp + k) = unat tmp + unat k"
      by (simp add: unat_word_ariths)
    with \<open>0 < unat k\<close> show ?thesis by simp
  qed
  from assms show ?thesis
    by (auto simp: cl_step_def is_code_length_code_def store_code_length_def Let_def
        split: sum.splits prod.splits if_splits
        dest!: repeat_loop_cnt dest: r [where k = 3] r [where k = 11])
qed

text \<open>\<^verbatim>\<open>while (cnt < total)\<close>: every successful iteration moves \<^verbatim>\<open>cnt\<close> forward.\<close>

function cl_loop :: "node \<Rightarrow> nat \<Rightarrow> nat \<Rightarrow> cl_state \<Rightarrow> cl_state result" where
  "cl_loop cl_root ll_code_cnt total_cnt s =
     (if cnt s < total_cnt then
        (case cl_step cl_root ll_code_cnt total_cnt s of
           Inl e \<Rightarrow> Inl e
         | Inr s' \<Rightarrow> cl_loop cl_root ll_code_cnt total_cnt s')
      else Inr s)"
  by pat_completeness auto
termination
  by (relation "measure (\<lambda>(cl_root, ll_code_cnt, total_cnt, s). total_cnt - cnt s)")
    (auto dest: cl_step_cnt)

declare cl_loop.simps [simp del]

text \<open>
  The head of \<^verbatim>\<open>decompress_block_type_10\<close>: HLIT, HDIST and HCLEN with the casts
  and the arithmetic in the widths of the source, and the loop that reads the
  lengths of the code-length alphabet in the order of \<^verbatim>\<open>cl_code_serial\<close>.
\<close>

definition cl_code_serial :: "nat list" where
  "cl_code_serial = [16, 17, 18, 0, 8, 7, 9, 6, 10, 5, 11, 4, 12, 3, 13, 2, 14, 1, 15]"

function read_cl_code_lengths ::
  "decompression_data \<Rightarrow> nat \<Rightarrow> nat \<Rightarrow> nat list \<Rightarrow> (nat list \<times> decompression_data) result"
where
  "read_cl_code_lengths d i cl_code_cnt cl_code_lengths =
     (if i < cl_code_cnt then
        (case read_bits d 3 of
           Inl e \<Rightarrow> Inl e
         | Inr (tmp, d') \<Rightarrow>
             read_cl_code_lengths d' (i + 1) cl_code_cnt
               (cl_code_lengths[cl_code_serial ! i := unat (ucast tmp :: 8 word)]))
      else Inr (cl_code_lengths, d))"
  by pat_completeness auto
termination
  by (relation "measure (\<lambda>(d, i, cl_code_cnt, ls). cl_code_cnt - i)") auto

declare read_cl_code_lengths.simps [simp del]

definition read_code_counts ::
  "decompression_data \<Rightarrow> (nat \<times> nat \<times> nat \<times> decompression_data) result"
where
  "read_code_counts d =
     (case read_bits d 5 of
        Inl e \<Rightarrow> Inl e
      | Inr (tmp, d1) \<Rightarrow>
          let HLIT = (ucast tmp :: 8 word);
              ll_code_cnt = unat ((ucast HLIT :: 16 word) + 257)
          in if ll_code_cnt < 257 \<or> ll_code_cnt > 286 then Inl (Expecting_ll_code_count, d1)
             else
               (case read_bits d1 5 of
                  Inl e \<Rightarrow> Inl e
                | Inr (tmp, d2) \<Rightarrow>
                    let HDIST = (ucast tmp :: 8 word);
                        d_code_cnt = unat (HDIST + 1)
                    in if d_code_cnt < 1 \<or> d_code_cnt > 32
                       then Inl (Expecting_distance_code_count, d2)
                       else
                         (case read_bits d2 4 of
                            Inl e \<Rightarrow> Inl e
                          | Inr (tmp, d3) \<Rightarrow>
                              let HCLEN = (ucast tmp :: 8 word);
                                  cl_code_cnt = unat (HCLEN + 4)
                              in if cl_code_cnt < 4 \<or> cl_code_cnt > 19
                                 then Inl (Expecting_cl_code_count, d3)
                                 else Inr (ll_code_cnt, d_code_cnt, cl_code_cnt, d3))))"

text \<open>
  From the counts to the two arrays of code lengths: the code-length tree with the
  limit 7, then the loop from \<^verbatim>\<open>cnt = 0\<close> with both arrays zeroed.
\<close>

definition initial_cl_state :: "decompression_data \<Rightarrow> cl_state" where
  "initial_cl_state d =
     \<lparr>data = d, ll_code_lengths = replicate 286 0, d_code_lengths = replicate 32 0,
      previous_code_length = 0, cnt = 0\<rparr>"

definition read_code_lengths ::
  "decompression_data \<Rightarrow> nat \<Rightarrow> nat \<Rightarrow> nat \<Rightarrow> cl_state result"
where
  "read_code_lengths d ll_code_cnt d_code_cnt cl_code_cnt =
     (case read_cl_code_lengths d 0 cl_code_cnt (replicate 19 0) of
        Inl e \<Rightarrow> Inl e
      | Inr (cl_code_lengths, d1) \<Rightarrow>
          (case create_huffman_tree cl_code_lengths 7 of
             Inl e \<Rightarrow> Inl (e, d1)
           | Inr cl_root \<Rightarrow>
               cl_loop cl_root ll_code_cnt (ll_code_cnt + d_code_cnt) (initial_cl_state d1)))"

text \<open>
  The length branch of the second loop up to the call of
  \<^verbatim>\<open>copy_bytes_from_distance\<close>; the distance code is a symbol of the distance tree,
  cast to \<^verbatim>\<open>uint8_t\<close>.
\<close>

definition back_reference_10 ::
  "decompression_data \<Rightarrow> node \<Rightarrow> int \<Rightarrow> (16 word \<times> 16 word \<times> decompression_data) result"
where
  "back_reference_10 d d_root c =
     (case length_from_length_code d c of
        Inl e \<Rightarrow> Inl e
      | Inr (length_arg, d1) \<Rightarrow>
          (case find_huffman_code d1 d_root of
             Inl e \<Rightarrow> Inl e
           | Inr (edge, d2) \<Rightarrow>
               (case distance_from_distance_code d2 (word_of_int (code edge)) of
                  Inl e \<Rightarrow> Inl e
                | Inr (distance, d3) \<Rightarrow> Inr (length_arg, distance, d3))))"

definition expand_symbol_10 ::
  "decompression_data \<Rightarrow> node \<Rightarrow> node \<Rightarrow> (bool \<times> decompression_data) result"
where
  "expand_symbol_10 d ll_root d_root =
     (case find_huffman_code d ll_root of
        Inl e \<Rightarrow> Inl e
      | Inr (edge_node, d1) \<Rightarrow>
          if \<not> is_literal_length_code (code edge_node) then Inl (Invalid_literal_length_code, d1)
          else if code edge_node = 256 then Inr (True, d1)
          else if is_literal_code (code edge_node) then
            (case handle_literal_codes d1 [word_of_int (code edge_node)] of
               Inl e \<Rightarrow> Inl e
             | Inr d2 \<Rightarrow> Inr (False, d2))
          else if is_length_code (code edge_node) then
            (case back_reference_10 d1 d_root (code edge_node) of
               Inl e \<Rightarrow> Inl e
             | Inr (length_arg, distance, d2) \<Rightarrow>
                 (case copy_bytes_from_distance d2 length_arg distance of
                    Inl e \<Rightarrow> Inl e
                  | Inr d3 \<Rightarrow> Inr (False, d3)))
          else Inr (False, d1))"

partial_function (option) symbols_loop_10 ::
  "decompression_data \<Rightarrow> node \<Rightarrow> node \<Rightarrow> decompression_data result option"
where
  "symbols_loop_10 d ll_root d_root =
     (case expand_symbol_10 d ll_root d_root of
        Inl e \<Rightarrow> Some (Inl e)
      | Inr (stop, d') \<Rightarrow> if stop then Some (Inr d') else symbols_loop_10 d' ll_root d_root)"

declare symbols_loop_10.simps [code]

definition decompress_block_type_10 ::
  "decompression_data \<Rightarrow> decompression_data result option"
where
  "decompress_block_type_10 d =
     (case read_code_counts d of
        Inl e \<Rightarrow> Some (Inl e)
      | Inr (ll_code_cnt, d_code_cnt, cl_code_cnt, d1) \<Rightarrow>
          (case read_code_lengths d1 ll_code_cnt d_code_cnt cl_code_cnt of
             Inl e \<Rightarrow> Some (Inl e)
           | Inr s \<Rightarrow>
               (case create_huffman_tree (take ll_code_cnt (ll_code_lengths s)) 15 of
                  Inl e \<Rightarrow> Some (Inl (e, data s))
                | Inr ll_root \<Rightarrow>
                    (case create_huffman_tree (take d_code_cnt (d_code_lengths s)) 15 of
                       Inl e \<Rightarrow> Some (Inl (e, data s))
                     | Inr d_root \<Rightarrow> symbols_loop_10 (data s) ll_root d_root))))"

section \<open>Initial states\<close>

text \<open>
  The state that \<^verbatim>\<open>decompress_blocks\<close> sets up before its first block: the cursor
  on bit 0 of the byte at \<open>pos\<close>, an empty window and an empty output buffer.
\<close>

definition init_data :: "8 word list \<Rightarrow> nat \<Rightarrow> FILE \<Rightarrow> decompression_data" where
  "init_data b pos fl =
     \<lparr>buf = b, buf_pos = pos, byte_pos = 0, back_refs = (\<lambda>_. 0), back_refs_pos = 0,
      back_refs_filled = False, out_buf = (\<lambda>_. 0), out_pos = 0, out_file = fl\<rparr>"

definition new_file :: FILE where
  "new_file = \<lparr>f_data = [], f_err = False\<rparr>"

text \<open>A tree with the two one-bit codes: symbol 0 on the left, symbol 1 on the right.\<close>

definition two_leaves :: node where
  "two_leaves = Node (Node NULL NULL 0) (Node NULL NULL 1) (- 1)"





section \<open>The sliding window as a stream\<close>

text \<open>
  The copy of a back reference as the specification words it: \<open>k\<close> times, append
  the byte that lies \<open>dist\<close> bytes before the end of the output, so that a byte
  appended by the copy can be the source of a later one.
\<close>

fun byte_by_byte_copy :: "8 word list \<Rightarrow> nat \<Rightarrow> nat \<Rightarrow> 8 word list" where
  "byte_by_byte_copy out dist 0 = out"
| "byte_by_byte_copy out dist (Suc k) = byte_by_byte_copy (out @ [out ! (length out - dist)]) dist k"

text \<open>
  \<open>window_holds d n\<close>: \<open>n\<close> bytes have been emitted since the window was set up,
  the write position and the flag \<^verbatim>\<open>back_refs_filled\<close> say so, and the window
  holds the last \<open>min n 32768\<close> of them, the newest just before the write position.
\<close>

definition window_holds :: "decompression_data \<Rightarrow> nat \<Rightarrow> bool" where
  "window_holds d n \<longleftrightarrow>
     unat (back_refs_pos d) = n mod MAX_DISTANCE \<and>
     back_refs_filled d = (MAX_DISTANCE \<le> n) \<and>
     n \<le> length (emitted d) \<and>
     (\<forall>j < min n MAX_DISTANCE.
        back_refs d ((n - 1 - j) mod MAX_DISTANCE) = emitted d ! (length (emitted d) - 1 - j))"

text \<open>
  The window index that the copy loop reads at its step \<open>m\<close>, for a copy at
  distance \<open>dist\<close> after \<open>n\<close> bytes.
\<close>

definition src_pos :: "nat \<Rightarrow> nat \<Rightarrow> nat \<Rightarrow> nat" where
  "src_pos n dist m = (n - dist + m mod dist) mod MAX_DISTANCE"

text \<open>States in which the bytes a, and a then b, have been emitted; the input is one zero byte.\<close>

definition after_a :: decompression_data where
  "after_a = put_byte (init_data [0] 0 new_file) 0x61"

definition after_ab :: decompression_data where
  "after_ab = put_byte (put_byte (init_data [0] 0 new_file) 0x61) 0x62"

text \<open>
  A stream in error, and the state that \<open>m\<close> bytes a leave behind on a fresh window
  (lemma \<open>run_of_a_reached\<close>): with \<open>m\<close> below 8192 all of them are pending in the
  output buffer and nothing has been written to the stream.
\<close>

definition file_in_error :: FILE where
  "file_in_error = \<lparr>f_data = [], f_err = True\<rparr>"

definition run_of_a :: "nat \<Rightarrow> FILE \<Rightarrow> decompression_data" where
  "run_of_a m fl =
     \<lparr>buf = [0], buf_pos = 0, byte_pos = 0,
      back_refs = (\<lambda>i. if i < m then 0x61 else 0), back_refs_pos = of_nat m,
      back_refs_filled = False,
      out_buf = (\<lambda>i. if i < m then 0x61 else 0), out_pos = m, out_file = fl\<rparr>"

section \<open>The sequence of code lengths\<close>

text \<open>
  The code lengths that the loop has produced: the first \<^verbatim>\<open>cnt\<close> entries of the
  literal/length array (its first \<^verbatim>\<open>ll_code_cnt\<close> entries) followed by the distance
  array.
\<close>

definition code_lengths_so_far :: "nat \<Rightarrow> cl_state \<Rightarrow> nat list" where
  "code_lengths_so_far ll_code_cnt s =
     take (cnt s) (take ll_code_cnt (ll_code_lengths s) @ d_code_lengths s)"

text \<open>
  The arrays have their declared sizes and the counts are those of a block:
  \<^verbatim>\<open>ll_code_cnt\<close> at most 286 and \<^verbatim>\<open>total\<close> at most \<^verbatim>\<open>ll_code_cnt + 32\<close>.
\<close>

definition cl_arrays :: "nat \<Rightarrow> nat \<Rightarrow> cl_state \<Rightarrow> bool" where
  "cl_arrays ll_code_cnt total_cnt s \<longleftrightarrow>
     length (ll_code_lengths s) = 286 \<and> length (d_code_lengths s) = 32 \<and>
     ll_code_cnt \<le> 286 \<and> total_cnt \<le> ll_code_cnt + 32"

text \<open>Once a length has been produced, \<^verbatim>\<open>previous_code_length\<close> is the last one.\<close>

definition previous_is_last :: "nat \<Rightarrow> cl_state \<Rightarrow> bool" where
  "previous_is_last ll_code_cnt s \<longleftrightarrow>
     (0 < cnt s \<longrightarrow> previous_code_length s = last (code_lengths_so_far ll_code_cnt s))"

text \<open>
  A code-length tree with the codes 0 for symbol 8, 10 for symbol 16 and 11 for
  symbol 18, and states of the loop over an input \<open>b\<close>: at its start, after the
  length 8, and after 256 lengths 0.
\<close>

definition three_codes :: node where
  "three_codes =
     Node (Node NULL NULL 8) (Node (Node NULL NULL 16) (Node NULL NULL 18) (- 1)) (- 1)"

definition cl_start :: "8 word list \<Rightarrow> cl_state" where
  "cl_start b = initial_cl_state (init_data b 0 new_file)"

definition cl_after_8 :: "8 word list \<Rightarrow> cl_state" where
  "cl_after_8 b = (store_code_length 257 8 (cl_start b))\<lparr>previous_code_length := 8\<rparr>"

definition cl_after_256_zeros :: "8 word list \<Rightarrow> cl_state" where
  "cl_after_256_zeros b = (cl_start b)\<lparr>cnt := 256\<rparr>"

section \<open>Prefix codes and tree shapes\<close>

text \<open>The paths from a node to the leaves below it, as strings of the characters 0 and 1.\<close>

fun leaf_paths :: "node \<Rightarrow> string set" where
  "leaf_paths NULL = {}"
| "leaf_paths (Node l r c) =
     (if c \<noteq> - 1 then {[]}
      else (#) (CHR ''0'') ` leaf_paths l \<union> (#) (CHR ''1'') ` leaf_paths r)"

text \<open>
  The shape of the trees that \<^verbatim>\<open>create_huffman_tree\<close> builds: a node with a symbol
  has no children, a node without one (below the root) has at least one child.
\<close>

fun subtree_ok :: "node \<Rightarrow> bool" where
  "subtree_ok NULL = True"
| "subtree_ok (Node l r c) =
     (if c = - 1 then (l \<noteq> NULL \<or> r \<noteq> NULL) \<and> subtree_ok l \<and> subtree_ok r
      else l = NULL \<and> r = NULL)"

definition root_ok :: "node \<Rightarrow> bool" where
  "root_ok t \<longleftrightarrow> (\<exists>l r. t = Node l r (- 1) \<and> subtree_ok l \<and> subtree_ok r)"

text \<open>Strings of the characters 0 and 1; two strings of which one is a prefix of the other.\<close>

definition bit_string :: "string \<Rightarrow> bool" where
  "bit_string bs \<longleftrightarrow> set bs \<subseteq> {CHR ''0'', CHR ''1''}"

definition comparable :: "string \<Rightarrow> string \<Rightarrow> bool" where
  "comparable p q \<longleftrightarrow> prefix p q \<or> prefix q p"

definition pairwise_ok :: "string list \<Rightarrow> bool" where
  "pairwise_ok cs \<longleftrightarrow>
     (\<forall>i j. i < j \<and> j < length cs \<and> cs ! i \<noteq> [] \<and> cs ! j \<noteq> []
        \<longrightarrow> \<not> comparable (cs ! i) (cs ! j))"

definition prefix_violation :: "huffman list \<Rightarrow> bool" where
  "prefix_violation codes \<longleftrightarrow>
     (\<exists>i \<in> {0..<length codes}. \<exists>j \<in> {0..<length codes}.
        len (codes ! i) \<noteq> 0 \<and>
        strict_prefix (huffman_code (codes ! i)) (huffman_code (codes ! j)))"

section \<open>The fixed trees and a fixed-Huffman block\<close>

text \<open>
  The complete tree of depth \<open>n\<close> whose leaves are the symbols \<open>i\<close>, \<open>i + 1\<close>, ...
  from left to right.
\<close>

function subtree :: "nat \<Rightarrow> int \<Rightarrow> node" where
  "subtree n i =
     (if n = 0 then Node NULL NULL i
      else Node (subtree (n - 1) i) (subtree (n - 1) (i + 2 ^ (n - 1))) (- 1))"
  by pat_completeness auto
termination
  by (relation "measure fst") auto

declare subtree.simps [simp del]

text \<open>
  The tree of thirty codes of length 5 (the codes 11110 and 11111 are unused) and
  the tree of the fixed literal/length code, written with complete subtrees.
\<close>

definition five_bit_tree :: node where
  "five_bit_tree =
     Node (subtree 4 0)
          (Node (subtree 3 16)
                (Node (subtree 2 24) (Node (subtree 1 28) NULL (- 1)) (- 1)) (- 1)) (- 1)"

definition fixed_tree :: node where
  "fixed_tree =
     Node (Node (Node (subtree 4 256) (Node (subtree 3 272) (subtree 4 0) (- 1)) (- 1))
                (subtree 6 16) (- 1))
          (Node (subtree 6 80)
                (Node (Node (Node (subtree 3 280) (subtree 4 144) (- 1)) (subtree 5 160) (- 1))
                      (subtree 6 192) (- 1)) (- 1)) (- 1)"

text \<open>The diagnostic of a result, if any, and the bytes emitted in the state it carries.\<close>

definition outcome :: "decompression_data result \<Rightarrow> error option \<times> 8 word list" where
  "outcome r = (case r of Inl (e, d) \<Rightarrow> (Some e, emitted d) | Inr d \<Rightarrow> (None, emitted d))"

text \<open>
  The state in that block when a, b and c have been emitted and the length symbol
  has been decoded: the cursor is on bit 2 of byte 4, the first distance bit.
\<close>

definition abc_before_distance :: decompression_data where
  "abc_before_distance =
     put_byte (put_byte (put_byte
       ((init_data [0x4B, 0x4C, 0x4A, 0x06, 0x22, 0x00] 4 new_file)\<lparr>byte_pos := 2\<rparr>)
       0x61) 0x62) 0x63"

text \<open>
  The Kraft sum of a vector of code lengths, scaled by \<open>2 ^ b\<close> and restricted to the
  lengths from 1 to \<open>b\<close>: the number of codes of \<open>b\<close> bits that the codes of these
  lengths use up. A vector whose lengths are at most 15 is the histogram of a prefix code
  when the sum of \<open>2 ^ (15 - l)\<close> over its positive lengths \<open>l\<close> is at most \<open>2 ^ 15\<close>,
  which is the inequality \<open>\<Sum> 2 ^ (- l) \<le> 1\<close> multiplied by \<open>2 ^ 15\<close>.
\<close>

definition kraft_term :: "nat \<Rightarrow> nat \<Rightarrow> nat" where
  "kraft_term b l = (if 0 < l \<and> l \<le> b then 2 ^ (b - l) else 0)"

definition kraft_sum :: "nat \<Rightarrow> nat list \<Rightarrow> nat" where
  "kraft_sum b ls = sum_list (map (kraft_term b) ls)"

text \<open>The code lengths of the example in RFC 1951, section 3.2.2.\<close>

definition rfc_lengths :: "nat list" where
  "rfc_lengths = [3, 3, 3, 3, 3, 2, 4, 4]"

section \<open>Properties\<close>

lemma read_bits_0: "read_bits d 0 = Inr (0, d)"
  by (simp add: read_bits_def read_bits_loop.simps)

subsection \<open>Reading no bits\<close>

lemma length_data_values:
  assumes "n < 29" "extra_bits (length_data ! n) = 0"
  shows "\<not> (value (length_data ! n) > 258 \<or> value (length_data ! n) < 3)"
proof -
  have "list_all (\<lambda>e. extra_bits e = 0 \<longrightarrow> \<not> (value e > 258 \<or> value e < 3)) length_data"
    by (simp add: length_data_def vb_def)
  moreover have "length length_data = 29" by (simp add: length_data_def)
  ultimately show ?thesis
    using assms by (simp add: list_all_length)
qed

lemma dist_data_values:
  assumes "n < 30" "extra_bits (dist_data ! n) = 0"
  shows "\<not> (value (dist_data ! n) < 1 \<or> value (dist_data ! n) > 32768)"
proof -
  have "list_all (\<lambda>e. extra_bits e = 0 \<longrightarrow> \<not> (value e < 1 \<or> value e > 32768)) dist_data"
    by (simp add: dist_data_def vb_def)
  moreover have "length dist_data = 30" by (simp add: dist_data_def)
  ultimately show ?thesis
    using assms by (simp add: list_all_length)
qed

lemma distance_code_index:
  assumes "is_distance_code (uint c)"
  shows "unat c < 30"
proof -
  have "uint c \<le> 29" using assms by (simp add: is_distance_code_def)
  moreover have "unat c = nat (uint c)" by (rule unat_eq_nat_uint)
  ultimately show ?thesis by linarith
qed

lemma length_from_length_code_no_extra:
  assumes "is_length_code c" "extra_bits (length_data ! nat (c - 257)) = 0"
  shows "length_from_length_code d c = Inr (value (length_data ! nat (c - 257)), d)"
proof -
  have "nat (c - 257) < 29" using assms(1) by (auto simp: is_length_code_def)
  then have v: "\<not> (value (length_data ! nat (c - 257)) > 258
      \<or> value (length_data ! nat (c - 257)) < 3)"
    using assms(2) by (rule length_data_values)
  show ?thesis
    unfolding length_from_length_code_def Let_def
    apply (simp only: assms read_bits_0 if_False not_True_eq_False not_not)
    apply (simp only: sum.case prod.case add_0_right)
    using v apply simp
    done
qed

lemma distance_from_distance_code_no_extra:
  assumes "is_distance_code (uint c)" "extra_bits (dist_data ! unat c) = 0"
  shows "distance_from_distance_code d c = Inr (value (dist_data ! unat c), d)"
proof -
  have "unat c < 30" using assms(1) by (rule distance_code_index)
  then have v: "\<not> (value (dist_data ! unat c) < 1 \<or> value (dist_data ! unat c) > 32768)"
    using assms(2) by (rule dist_data_values)
  show ?thesis
    unfolding distance_from_distance_code_def Let_def
    apply (simp only: assms read_bits_0 if_False not_True_eq_False not_not)
    apply (simp only: sum.case prod.case add_0_right)
    using v apply simp
    done
qed

text \<open>
  Claim C10. \<^verbatim>\<open>read_bits\<close> with a bit count of 0 succeeds in every state, also one
  whose cursor is at the end of the input: it returns the value 0 and the state it
  was given, cursor included. The length codes and the distance codes whose table
  entry has no extra bits are decoded through this call: for them
  \<^verbatim>\<open>length_from_length_code\<close> and \<^verbatim>\<open>distance_from_distance_code\<close> return the
  base value of the table and leave the state as it was, wherever the cursor is.
\<close>

theorem read_bits_zero_bits:
  "read_bits d 0 = Inr (0, d) \<and>
   (\<forall>c. is_length_code c \<and> extra_bits (length_data ! nat (c - 257)) = 0 \<longrightarrow>
      length_from_length_code d c = Inr (value (length_data ! nat (c - 257)), d)) \<and>
   (\<forall>c. is_distance_code (uint c) \<and> extra_bits (dist_data ! unat c) = 0 \<longrightarrow>
      distance_from_distance_code d c = Inr (value (dist_data ! unat c), d))"
  using read_bits_0 length_from_length_code_no_extra distance_from_distance_code_no_extra
  by blast

text \<open>
  At the end of an empty input, where reading one bit fails: length code 285 gives
  258 and distance code 3 gives 4.
\<close>

theorem read_bits_zero_bits_witness:
  "buf_len (init_data [] 0 new_file) \<le> buf_pos (init_data [] 0 new_file) \<and>
   read_bits (init_data [] 0 new_file) 0 = Inr (0, init_data [] 0 new_file) \<and>
   length_from_length_code (init_data [] 0 new_file) 285 = Inr (258, init_data [] 0 new_file) \<and>
   distance_from_distance_code (init_data [] 0 new_file) 3 = Inr (4, init_data [] 0 new_file) \<and>
   read_bits (init_data [] 0 new_file) 1
     = Inl (Unexpected_buffer_length, init_data [] 0 new_file)"
  using read_bits_zero_bits [of "init_data [] 0 new_file"]
  by (simp add: is_length_code_def is_distance_code_def length_data_def dist_data_def vb_def
      buf_len_def init_data_def read_bits_def read_bits_loop.simps)

subsection \<open>The length of a back reference\<close>

lemma length_from_length_code_range:
  assumes "length_from_length_code d c = Inr (l, d')"
  shows "3 \<le> unat l \<and> unat l \<le> 258"
proof -
  from assms have "\<not> (l > 258 \<or> l < 3)"
    by (auto simp: length_from_length_code_def Let_def split: if_splits sum.splits prod.splits)
  then show ?thesis
    by (simp add: word_less_nat_alt not_less)
qed

lemma copy_loop_in_bounds:
  "n \<le> 258 \<Longrightarrow> copy_loop d start tmp i n bytes \<noteq> Inl Copy_buffer_overrun"
proof (induction d start tmp i n bytes rule: copy_loop.induct)
  case (1 d start tmp i n bytes)
  show ?case
  proof (cases "i < n")
    case True
    with "1.prems" have b: "\<not> 258 \<le> i" by simp
    have step: "copy_loop d start tmp i n bytes =
        copy_loop d start (next_copy_pos d start tmp) (i + 1) n
          (bytes(i := back_refs d (unat tmp)))"
      using True b by (subst copy_loop.simps) simp
    show ?thesis unfolding step by (rule "1.IH" [OF True b "1.prems"])
  next
    case False
    then show ?thesis by (subst copy_loop.simps) simp
  qed
qed

lemma copy_loop_overrun:
  "i \<le> 258 \<Longrightarrow> 258 < n \<Longrightarrow> copy_loop d start tmp i n bytes = Inl Copy_buffer_overrun"
proof (induction d start tmp i n bytes rule: copy_loop.induct)
  case (1 d start tmp i n bytes)
  show ?case
  proof (cases "258 \<le> i")
    case True
    with "1.prems" show ?thesis by (subst copy_loop.simps) simp
  next
    case False
    with "1.prems" have lt: "i < n" and le: "i + 1 \<le> 258" by simp_all
    have step: "copy_loop d start tmp i n bytes =
        copy_loop d start (next_copy_pos d start tmp) (i + 1) n
          (bytes(i := back_refs d (unat tmp)))"
      using lt False by (subst copy_loop.simps) simp
    show ?thesis unfolding step by (rule "1.IH" [OF lt False le "1.prems"(2)])
  qed
qed

lemma flush_if_full_error:
  "flush_if_full d = Inl (e, d') \<Longrightarrow> e = Could_not_write_full_buffer"
  by (auto simp: flush_if_full_def split: if_splits prod.splits)

lemma handle_literal_codes_loop_error:
  "handle_literal_codes_loop d cs = Inl (e, d') \<Longrightarrow> e = Could_not_write_full_buffer"
  by (induction cs arbitrary: d) (auto split: sum.splits dest: flush_if_full_error)

lemma handle_literal_codes_error:
  "handle_literal_codes d cs = Inl (e, d') \<Longrightarrow> e = Could_not_write_full_buffer"
  by (auto simp: handle_literal_codes_def split: sum.splits
      dest: flush_if_full_error handle_literal_codes_loop_error)

lemma copy_bytes_in_bounds:
  assumes "unat l \<le> 258"
  shows "failure (copy_bytes_from_distance d l dist) \<noteq> Some Copy_buffer_overrun"
proof
  assume "failure (copy_bytes_from_distance d l dist) = Some Copy_buffer_overrun"
  then obtain d' where a: "copy_bytes_from_distance d l dist = Inl (Copy_buffer_overrun, d')"
    by (auto simp: failure_def split: sum.splits)
  let ?s = "copy_start_pos d dist"
  show False
  proof (cases "copy_loop d ?s ?s 0 (unat l) (\<lambda>_. 0)")
    case (Inl e)
    with a have "e = Copy_buffer_overrun"
      by (auto simp: copy_bytes_from_distance_def Let_def split: if_splits)
    with Inl copy_loop_in_bounds [OF assms] show False by blast
  next
    case (Inr bytes)
    with a have "handle_literal_codes d (map bytes [0..<unat l]) = Inl (Copy_buffer_overrun, d')"
      by (auto simp: copy_bytes_from_distance_def Let_def split: if_splits)
    then show False by (auto dest: handle_literal_codes_error)
  qed
qed

text \<open>
  Claim C9. The loops of both block decoders call \<^verbatim>\<open>copy_bytes_from_distance\<close>
  with the length that \<^verbatim>\<open>length_from_length_code\<close> returned, and that function
  returns no length below 3 or above 258. With such a length the copy loop writes
  \<^verbatim>\<open>bytes_to_copy\<close> only at indices below 258: the copy never ends in the
  out-of-bounds branch, in the fixed-Huffman loop and in the dynamic-Huffman loop.
\<close>

theorem copy_length_in_bounds:
  "(back_reference_01 d c = Inr (l, dist, d') \<longrightarrow>
      3 \<le> unat l \<and> unat l \<le> 258 \<and>
      failure (copy_bytes_from_distance d' l dist) \<noteq> Some Copy_buffer_overrun) \<and>
   (back_reference_10 d d_root c = Inr (l, dist, d') \<longrightarrow>
      3 \<le> unat l \<and> unat l \<le> 258 \<and>
      failure (copy_bytes_from_distance d' l dist) \<noteq> Some Copy_buffer_overrun)"
proof (intro conjI impI)
  assume "back_reference_01 d c = Inr (l, dist, d')"
  then obtain d1 where "length_from_length_code d c = Inr (l, d1)"
    by (auto simp: back_reference_01_def split: sum.splits prod.splits)
  then have r: "3 \<le> unat l \<and> unat l \<le> 258" by (rule length_from_length_code_range)
  then show "3 \<le> unat l" "unat l \<le> 258"
    "failure (copy_bytes_from_distance d' l dist) \<noteq> Some Copy_buffer_overrun"
    using copy_bytes_in_bounds by blast+
next
  assume "back_reference_10 d d_root c = Inr (l, dist, d')"
  then obtain d1 where "length_from_length_code d c = Inr (l, d1)"
    by (auto simp: back_reference_10_def split: sum.splits prod.splits)
  then have r: "3 \<le> unat l \<and> unat l \<le> 258" by (rule length_from_length_code_range)
  then show "3 \<le> unat l" "unat l \<le> 258"
    "failure (copy_bytes_from_distance d' l dist) \<noteq> Some Copy_buffer_overrun"
    using copy_bytes_in_bounds by blast+
qed

text \<open>
  A back reference of length 3 and distance 1 decoded by both loops from the input
  byte 0.
\<close>

theorem copy_length_in_bounds_witness:
  "back_reference_01 (init_data [0] 0 new_file) 257
     = Inr (3, 1, (init_data [0] 0 new_file)\<lparr>byte_pos := 5\<rparr>) \<and>
   failure (copy_bytes_from_distance ((init_data [0] 0 new_file)\<lparr>byte_pos := 5\<rparr>) 3 1)
     \<noteq> Some Copy_buffer_overrun \<and>
   back_reference_10 (init_data [0] 0 new_file) two_leaves 257
     = Inr (3, 1, (init_data [0] 0 new_file)\<lparr>byte_pos := 1\<rparr>) \<and>
   failure (copy_bytes_from_distance ((init_data [0] 0 new_file)\<lparr>byte_pos := 1\<rparr>) 3 1)
     \<noteq> Some Copy_buffer_overrun"
  using copy_length_in_bounds [of "init_data [0] 0 new_file" 257 3 1
      "(init_data [0] 0 new_file)\<lparr>byte_pos := 5\<rparr>" two_leaves]
    copy_length_in_bounds [of "init_data [0] 0 new_file" 257 3 1
      "(init_data [0] 0 new_file)\<lparr>byte_pos := 1\<rparr>" two_leaves]
  by (simp add: back_reference_01_def back_reference_10_def length_from_length_code_def
      distance_from_distance_code_def is_length_code_def is_distance_code_def
      length_data_def dist_data_def vb_def read_bits_def read_bits_loop.simps
      init_data_def buf_len_def increment_bit_position_def current_bit_def
      find_huffman_code_def two_leaves_def)

subsection \<open>The codes of the fixed literal/length table\<close>

text \<open>
  Claim C8. On the code lengths of the fixed-Huffman literal/length alphabet (8 for
  the symbols 0 to 143, 9 for 144 to 255, 7 for 256 to 279, 8 for 280 to 287) and
  the limit 15, \<^verbatim>\<open>generate_huffman_codes\<close> succeeds with 288 codes, among them
  00110000 for symbol 0, 10111111 for 143, 110010000 for 144, 111111111 for 255,
  0000000 for 256, 0010111 for 279, 11000000 for 280 and 11000111 for 287, each
  with the length of its string. These are the checks of \<^verbatim>\<open>tests/test.c\<close>.
\<close>

theorem fixed_literal_codes:
  "(case generate_huffman_codes fixed_lengths 15 of
      Inl e \<Rightarrow> False
    | Inr codes \<Rightarrow>
        length codes = 288 \<and>
        codes ! 0 = \<lparr>huffman_code = ''00110000'', len = 8\<rparr> \<and>
        codes ! 143 = \<lparr>huffman_code = ''10111111'', len = 8\<rparr> \<and>
        codes ! 144 = \<lparr>huffman_code = ''110010000'', len = 9\<rparr> \<and>
        codes ! 255 = \<lparr>huffman_code = ''111111111'', len = 9\<rparr> \<and>
        codes ! 256 = \<lparr>huffman_code = ''0000000'', len = 7\<rparr> \<and>
        codes ! 279 = \<lparr>huffman_code = ''0010111'', len = 7\<rparr> \<and>
        codes ! 280 = \<lparr>huffman_code = ''11000000'', len = 8\<rparr> \<and>
        codes ! 287 = \<lparr>huffman_code = ''11000111'', len = 8\<rparr>)"
  by code_simp

subsection \<open>Stored blocks: LEN and NLEN\<close>

lemma emitted_put_byte: "emitted (put_byte d c) = emitted d @ [c]"
  by (simp add: emitted_def put_byte_def Let_def)

lemma flush_if_full_emitted:
  "flush_if_full d = Inr d' \<Longrightarrow> emitted d' = emitted d"
  by (auto simp: flush_if_full_def fwrite_def emitted_def split: if_splits)

lemma flush_if_full_ok:
  "\<not> f_err (out_file d) \<Longrightarrow> \<exists>d'. flush_if_full d = Inr d' \<and> \<not> f_err (out_file d')"
  by (auto simp: flush_if_full_def fwrite_def)

lemma put_byte_file: "out_file (put_byte d c) = out_file d"
  by (simp add: put_byte_def Let_def)

lemma handle_literal_codes_loop_ok:
  "\<not> f_err (out_file d) \<Longrightarrow>
     \<exists>d'. handle_literal_codes_loop d cs = Inr d' \<and> \<not> f_err (out_file d')"
proof (induction cs arbitrary: d)
  case Nil
  then show ?case by simp
next
  case (Cons c cs)
  from flush_if_full_ok [OF Cons.prems] obtain d1
    where f: "flush_if_full d = Inr d1" "\<not> f_err (out_file d1)" by blast
  then have "\<not> f_err (out_file (put_byte d1 c))" by (simp add: put_byte_file)
  from Cons.IH [OF this] f show ?case by simp
qed

lemma handle_literal_codes_ok:
  assumes "\<not> f_err (out_file d)"
  shows "\<exists>d'. handle_literal_codes d cs = Inr d' \<and> \<not> f_err (out_file d')"
proof -
  from handle_literal_codes_loop_ok [OF assms] obtain d1
    where l: "handle_literal_codes_loop d cs = Inr d1" "\<not> f_err (out_file d1)" by blast
  from flush_if_full_ok [OF l(2)] l(1) show ?thesis
    by (simp add: handle_literal_codes_def)
qed

lemma handle_literal_codes_loop_emitted:
  "handle_literal_codes_loop d cs = Inr d' \<Longrightarrow> emitted d' = emitted d @ cs"
proof (induction cs arbitrary: d)
  case Nil
  then show ?case by simp
next
  case (Cons c cs)
  then obtain d1 where f: "flush_if_full d = Inr d1"
    and r: "handle_literal_codes_loop (put_byte d1 c) cs = Inr d'"
    by (auto split: sum.splits)
  from Cons.IH [OF r] flush_if_full_emitted [OF f] show ?case
    by (simp add: emitted_put_byte)
qed

lemma handle_literal_codes_emitted:
  "handle_literal_codes d cs = Inr d' \<Longrightarrow> emitted d' = emitted d @ cs"
  using handle_literal_codes_loop_emitted flush_if_full_emitted
  by (fastforce simp: handle_literal_codes_def split: sum.splits)

lemma emitted_cursor [simp]:
  "emitted (d\<lparr>buf_pos := p\<rparr>) = emitted d" "emitted (d\<lparr>byte_pos := b\<rparr>) = emitted d"
  by (simp_all add: emitted_def)

lemma emitted_align [simp]: "emitted (align_to_byte d) = emitted d"
  by (simp add: align_to_byte_def)

lemma align_fields [simp]:
  "buf (align_to_byte d) = buf d" "out_file (align_to_byte d) = out_file d"
  "back_refs (align_to_byte d) = back_refs d" "back_refs_pos (align_to_byte d) = back_refs_pos d"
  "back_refs_filled (align_to_byte d) = back_refs_filled d"
  "byte_pos (align_to_byte d) = 0"
  by (simp_all add: align_to_byte_def)





subsection \<open>Back references and the window\<close>

lemma window_holds_init: "window_holds (init_data b p fl) 0"
  by (simp add: window_holds_def init_data_def MAX_DISTANCE_def)

lemma unat_of_nat_mod_MAX:
  "unat (of_nat (x mod MAX_DISTANCE) :: 16 word) = x mod MAX_DISTANCE"
proof -
  have "x mod MAX_DISTANCE < 32768" by (simp add: MAX_DISTANCE_def)
  then show ?thesis by (simp add: unat_of_nat)
qed

lemma mod_pos_neq:
  fixes W :: nat
  assumes "0 < j" "j < W" "j \<le> n"
  shows "(n - j) mod W \<noteq> n mod W"
proof
  assume "(n - j) mod W = n mod W"
  then have "W dvd n - (n - j)"
    by (metis diff_le_self mod_eq_dvd_iff_nat)
  with assms have "W dvd j" by simp
  with assms show False by (auto dest: dvd_imp_le)
qed

lemma window_holds_put_byte:
  assumes "window_holds d n"
  shows "window_holds (put_byte d c) (Suc n)"
proof -
  let ?W = MAX_DISTANCE
  let ?d3 = "d\<lparr>out_buf := (out_buf d)(out_pos d := c), out_pos := out_pos d + 1,
                back_refs := (back_refs d)(unat (back_refs_pos d) := c),
                back_refs_pos := of_nat ((unat (back_refs_pos d) + 1) mod ?W)\<rparr>"
  have W: "0 < ?W" by (simp add: MAX_DISTANCE_def)
  from assms have pos: "unat (back_refs_pos d) = n mod ?W"
    and fl: "back_refs_filled d = (?W \<le> n)"
    and le: "n \<le> length (emitted d)"
    and ct: "\<And>j. j < min n ?W \<Longrightarrow>
        back_refs d ((n - 1 - j) mod ?W) = emitted d ! (length (emitted d) - 1 - j)"
    by (auto simp: window_holds_def)
  have "back_refs_pos (put_byte d c) = of_nat ((unat (back_refs_pos d) + 1) mod ?W)"
    by (simp add: put_byte_def Let_def)
  then have pos': "unat (back_refs_pos (put_byte d c)) = Suc n mod ?W"
    by (simp only: unat_of_nat_mod_MAX pos) (simp add: mod_Suc_eq)
  have z: "(back_refs_pos (put_byte d c) = 0) = (Suc n mod ?W = 0)"
    using pos' by (metis unat_eq_zero)
  have "(Suc n mod ?W = 0 \<or> ?W \<le> n) = (?W \<le> Suc n)"
  proof (cases "?W \<le> n")
    case True then show ?thesis by simp
  next
    case False
    then have "Suc n \<le> ?W" by simp
    then show ?thesis using False W
      by (metis Suc_leI le_antisym less_Suc_eq_le mod_less mod_self nat.simps(3) not_less)
  qed
  moreover have "back_refs_filled (put_byte d c)
      = (back_refs_filled d \<or> back_refs_pos (put_byte d c) = 0)"
    by (auto simp: put_byte_def Let_def)
  ultimately have fl': "back_refs_filled (put_byte d c) = (?W \<le> Suc n)"
    using fl z by argo
  have em: "emitted (put_byte d c) = emitted d @ [c]"
    by (simp add: emitted_def put_byte_def Let_def)
  have br: "back_refs (put_byte d c) = (back_refs d)(n mod ?W := c)"
    by (simp add: put_byte_def Let_def pos)
  have ct': "back_refs (put_byte d c) ((Suc n - 1 - j) mod ?W)
      = emitted (put_byte d c) ! (length (emitted (put_byte d c)) - 1 - j)"
    if j: "j < min (Suc n) ?W" for j
  proof (cases j)
    case 0
    then show ?thesis by (simp add: br em)
  next
    case (Suc i)
    with j have i: "i < min n ?W" and jn: "j \<le> n" "0 < j" "j < ?W" by auto
    have ne: "(n - j) mod ?W \<noteq> n mod ?W" using jn by (intro mod_pos_neq) auto
    have "back_refs (put_byte d c) ((Suc n - 1 - j) mod ?W) = back_refs d ((n - j) mod ?W)"
      using ne by (simp add: br)
    also have "\<dots> = emitted d ! (length (emitted d) - 1 - i)"
      using ct [OF i] Suc by simp
    also have "\<dots> = emitted (put_byte d c) ! (length (emitted (put_byte d c)) - 1 - j)"
    proof -
      have "length (emitted d) - Suc i < length (emitted d)" using le jn Suc by arith
      then show ?thesis using Suc by (simp add: em nth_append)
    qed
    finally show ?thesis .
  qed
  show ?thesis
    unfolding window_holds_def using pos' fl' le ct' by (simp add: em)
qed


lemma window_holds_flush:
  "flush_if_full d = Inr d' \<Longrightarrow> window_holds d n \<Longrightarrow> window_holds d' n"
  by (frule flush_if_full_emitted)
    (auto simp: window_holds_def flush_if_full_def fwrite_def split: if_splits)

lemma window_holds_loop:
  "handle_literal_codes_loop d cs = Inr d' \<Longrightarrow> window_holds d n
     \<Longrightarrow> window_holds d' (n + length cs)"
proof (induction cs arbitrary: d n)
  case Nil
  then show ?case by simp
next
  case (Cons c cs)
  then obtain d1 where f: "flush_if_full d = Inr d1"
    and r: "handle_literal_codes_loop (put_byte d1 c) cs = Inr d'"
    by (auto split: sum.splits)
  have "window_holds (put_byte d1 c) (Suc n)"
    using window_holds_flush [OF f Cons.prems(2)] by (rule window_holds_put_byte)
  from Cons.IH [OF r this] show ?case by simp
qed

lemma window_holds_handle_literal_codes:
  assumes "handle_literal_codes d cs = Inr d'" "window_holds d n"
  shows "window_holds d' (n + length cs)"
proof -
  from assms(1) obtain d1 where l: "handle_literal_codes_loop d cs = Inr d1"
    and f: "flush_if_full d1 = Inr d'"
    by (auto simp: handle_literal_codes_def split: sum.splits)
  from window_holds_flush [OF f window_holds_loop [OF l assms(2)]] show ?thesis .
qed

lemma smod_nonneg: "0 \<le> k \<Longrightarrow> 0 < b \<Longrightarrow> k smod b = k mod b" for k b :: int
  by (cases "k = 0") (simp_all add: smod_int_alt_def sgn_if)

lemma unat_copy_start_pos:
  assumes "unat (back_refs_pos d) < MAX_DISTANCE" "unat dist \<le> MAX_DISTANCE"
  shows "unat (copy_start_pos d dist)
     = (unat (back_refs_pos d) + MAX_DISTANCE - unat dist) mod MAX_DISTANCE"
proof -
  let ?k = "uint (back_refs_pos d) - uint dist + int MAX_DISTANCE"
  have "uint (back_refs_pos d) = int (unat (back_refs_pos d))" "uint dist = int (unat dist)"
    by (rule uint_nat)+
  then have k: "?k = int (unat (back_refs_pos d) + MAX_DISTANCE - unat dist)"
    using assms by linarith
  then have nn: "0 \<le> ?k" by simp
  have "?k smod int MAX_DISTANCE = ?k mod int MAX_DISTANCE"
    using nn by (intro smod_nonneg) (simp_all add: MAX_DISTANCE_def)
  also have "\<dots> = int ((unat (back_refs_pos d) + MAX_DISTANCE - unat dist) mod MAX_DISTANCE)"
    by (simp only: k zmod_int)
  finally have "copy_start_pos d dist
      = of_nat ((unat (back_refs_pos d) + MAX_DISTANCE - unat dist) mod MAX_DISTANCE)"
    by (simp add: copy_start_pos_def)
  then show ?thesis by (simp only: unat_of_nat_mod_MAX)
qed


lemma start_is_src_pos:
  assumes "w = n mod MAX_DISTANCE" "dist \<le> n" "dist \<le> MAX_DISTANCE"
  shows "(w + MAX_DISTANCE - dist) mod MAX_DISTANCE = src_pos n dist 0"
proof -
  let ?W = MAX_DISTANCE
  have e: "n + (?W - dist) = (n - dist) + ?W" using assms by arith
  have "(w + ?W - dist) mod ?W = (n mod ?W + (?W - dist)) mod ?W"
    using assms by simp
  also have "\<dots> = (n + (?W - dist)) mod ?W" by (rule mod_add_left_eq)
  also have "\<dots> = ((n - dist) + ?W) mod ?W" by (simp only: e)
  also have "\<dots> = (n - dist) mod ?W" by simp
  finally show ?thesis by (simp add: src_pos_def)
qed

lemma src_pos_step:
  assumes pos: "unat (back_refs_pos d) = n mod MAX_DISTANCE"
    and dist: "0 < dist" "dist \<le> n" "dist \<le> MAX_DISTANCE"
    and start: "unat start = src_pos n dist 0"
    and tmp: "unat tmp = src_pos n dist m"
  shows "unat (next_copy_pos d start tmp) = src_pos n dist (Suc m)"
proof -
  let ?W = MAX_DISTANCE
  let ?r = "m mod dist"
  have r: "?r < dist" using dist(1) by simp
  let ?t1 = "of_nat ((unat tmp + 1) mod ?W) :: 16 word"
  have t1: "unat ?t1 = (n - dist + Suc ?r) mod ?W"
    by (simp only: unat_of_nat_mod_MAX tmp src_pos_def) (simp add: mod_Suc_eq)
  have eq: "(?t1 = back_refs_pos d) = (unat ?t1 = unat (back_refs_pos d))"
    by (simp add: word_unat_eq_iff)
  show ?thesis
  proof (cases "Suc ?r = dist")
    case True
    then have "n - dist + Suc ?r = n" using dist(2) by arith
    then have "unat ?t1 = unat (back_refs_pos d)" by (simp only: t1 pos)
    then have nx: "next_copy_pos d start tmp = start"
      using eq by (simp add: next_copy_pos_def Let_def)
    have "Suc m mod dist = 0" using True by (simp add: mod_Suc)
    then show ?thesis unfolding nx start by (simp add: src_pos_def)
  next
    case False
    with r have lt: "Suc ?r < dist" by simp
    let ?j = "dist - Suc ?r"
    have j: "0 < ?j" "?j < ?W" "?j \<le> n" using lt dist by simp_all
    have e: "n - dist + Suc ?r = n - ?j" using lt dist(2) by arith
    have ne: "(n - ?j) mod ?W \<noteq> n mod ?W" using j by (rule mod_pos_neq)
    have "unat ?t1 = (n - ?j) mod ?W" using t1 by (simp only: e)
    with ne pos have "unat ?t1 \<noteq> unat (back_refs_pos d)" by simp
    then have nx: "next_copy_pos d start tmp = ?t1"
      using eq by (simp add: next_copy_pos_def Let_def)
    have "Suc m mod dist = Suc ?r" using lt by (simp add: mod_Suc)
    then show ?thesis unfolding nx t1 by (simp add: src_pos_def)
  qed
qed

lemma copy_loop_result:
  "unat (back_refs_pos d) = n mod MAX_DISTANCE \<Longrightarrow> 0 < dist \<Longrightarrow> dist \<le> n
     \<Longrightarrow> dist \<le> MAX_DISTANCE \<Longrightarrow> unat start = src_pos n dist 0
     \<Longrightarrow> unat tmp = src_pos n dist m \<Longrightarrow> k \<le> 258 \<Longrightarrow>
     \<exists>bytes'. copy_loop d start tmp i k bytes = Inr bytes' \<and>
       (\<forall>j. i \<le> j \<and> j < k \<longrightarrow> bytes' j = back_refs d (src_pos n dist (m + (j - i)))) \<and>
       (\<forall>j < i. bytes' j = bytes j)"
proof (induction d start tmp i k bytes arbitrary: m rule: copy_loop.induct)
  case (1 d start tmp i k bytes)
  show ?case
  proof (cases "i < k")
    case False
    then show ?thesis by (subst copy_loop.simps) auto
  next
    case True
    with "1.prems" have b: "\<not> 258 \<le> i" by simp
    let ?bytes = "bytes(i := back_refs d (unat tmp))"
    have step: "copy_loop d start tmp i k bytes =
        copy_loop d start (next_copy_pos d start tmp) (i + 1) k ?bytes"
      using True b by (subst copy_loop.simps) simp
    have nxt: "unat (next_copy_pos d start tmp) = src_pos n dist (Suc m)"
      using "1.prems"(1-6) by (rule src_pos_step)
    from "1.IH" [OF True b "1.prems"(1-5) nxt "1.prems"(7)] obtain bytes'
      where r: "copy_loop d start (next_copy_pos d start tmp) (i + 1) k ?bytes = Inr bytes'"
        and a: "\<And>j. i + 1 \<le> j \<and> j < k \<Longrightarrow>
            bytes' j = back_refs d (src_pos n dist (Suc m + (j - (i + 1))))"
        and o: "\<And>j. j < i + 1 \<Longrightarrow> bytes' j = ?bytes j"
      by blast
    have "bytes' j = back_refs d (src_pos n dist (m + (j - i)))" if "i \<le> j \<and> j < k" for j
    proof (cases "j = i")
      case True
      then show ?thesis using o [of i] "1.prems"(6) by simp
    next
      case False
      with that have "i + 1 \<le> j \<and> j < k" by simp
      from a [OF this] that False show ?thesis
        by (simp add: Suc_diff_Suc le_neq_implies_less)
    qed
    moreover have "bytes' j = bytes j" if "j < i" for j
      using o [of j] that by simp
    ultimately show ?thesis unfolding step using r by blast
  qed
qed


lemma window_source:
  assumes "window_holds d n" "0 < dist" "dist \<le> n" "dist \<le> MAX_DISTANCE"
  shows "back_refs d (src_pos n dist m)
     = emitted d ! (length (emitted d) - dist + m mod dist)"
proof -
  let ?r = "m mod dist"
  let ?j = "dist - 1 - ?r"
  have r: "?r < dist" using assms(2) by simp
  then have j: "?j < min n MAX_DISTANCE" using assms(2,3,4) by (simp only: min_less_iff_conj) arith
  from assms(1) have le: "n \<le> length (emitted d)" by (simp add: window_holds_def)
  from assms(1) j have "back_refs d ((n - 1 - ?j) mod MAX_DISTANCE)
      = emitted d ! (length (emitted d) - 1 - ?j)"
    unfolding window_holds_def by blast
  moreover have "n - 1 - ?j = n - dist + ?r" using r assms(3) by arith
  moreover have "length (emitted d) - 1 - ?j = length (emitted d) - dist + ?r"
    using r assms(3) le by arith
  ultimately show ?thesis by (simp add: src_pos_def)
qed

lemma byte_by_byte_copy_append:
  assumes "0 < dist" "dist \<le> length E"
  shows "byte_by_byte_copy (E @ map (\<lambda>i. E ! (length E - dist + i mod dist)) [0..<i]) dist k
     = E @ map (\<lambda>i. E ! (length E - dist + i mod dist)) [0..<i + k]"
proof (induction k arbitrary: i)
  case 0
  then show ?case by simp
next
  case (Suc k)
  let ?f = "\<lambda>i. E ! (length E - dist + i mod dist)"
  let ?out = "E @ map ?f [0..<i]"
  have "?out ! (length ?out - dist) = ?f i"
  proof (cases "i < dist")
    case True
    then have "length ?out - dist < length E" using assms by simp
    moreover have "length ?out - dist = length E - dist + i" using assms by simp
    ultimately show ?thesis using True by (simp add: nth_append)
  next
    case False
    then have e: "length ?out - dist = length E + (i - dist)" using assms by simp
    have "?out ! (length E + (i - dist)) = map ?f [0..<i] ! (i - dist)"
      by (simp only: nth_append_length_plus)
    also have "\<dots> = ?f (i - dist)" using False assms(1) by simp
    also have "\<dots> = ?f i" using False by (simp add: le_mod_geq)
    finally show ?thesis by (simp only: e)
  qed
  then have "?out @ [?out ! (length ?out - dist)] = E @ map ?f [0..<Suc i]" by simp
  then have "byte_by_byte_copy ?out dist (Suc k) = byte_by_byte_copy (E @ map ?f [0..<Suc i]) dist k" by simp
  also have "\<dots> = E @ map ?f [0..<Suc i + k]" by (rule Suc.IH)
  finally show ?case by simp
qed

lemma byte_by_byte_copy_eq:
  assumes "0 < dist" "dist \<le> length E"
  shows "byte_by_byte_copy E dist k = E @ map (\<lambda>i. E ! (length E - dist + i mod dist)) [0..<k]"
  using byte_by_byte_copy_append [OF assms, of 0 k] by simp

lemma byte_by_byte_copy_run:
  assumes "E \<noteq> []"
  shows "byte_by_byte_copy E 1 k = E @ replicate k (last E)"
proof -
  have "0 < length E" using assms by simp
  then have "byte_by_byte_copy E 1 k = E @ map (\<lambda>i. E ! (length E - 1)) [0..<k]"
    by (simp add: byte_by_byte_copy_eq Suc_leI)
  also have "map (\<lambda>i. E ! (length E - 1)) [0..<k] = replicate k (last E)"
    using assms by (simp add: map_replicate_const last_conv_nth)
  finally show ?thesis .
qed


lemma copy_bytes_from_distance_stream:
  assumes "window_holds d n"
    and "1 \<le> unat dist" and "unat dist \<le> n" and "unat dist \<le> MAX_DISTANCE"
    and "unat k \<le> 258"
    and "\<not> f_err (out_file d)"
  shows "\<exists>d'. copy_bytes_from_distance d k dist = Inr d' \<and>
           emitted d' = byte_by_byte_copy (emitted d) (unat dist) (unat k) \<and>
           window_holds d' (n + unat k) \<and>
           (dist = 1 \<longrightarrow> emitted d' = emitted d @ replicate (unat k) (last (emitted d)))"
proof -
  let ?W = MAX_DISTANCE
  let ?E = "emitted d"
  let ?start = "copy_start_pos d dist"
  let ?f = "\<lambda>i. ?E ! (length ?E - unat dist + i mod unat dist)"
  have W: "0 < ?W" by (simp add: MAX_DISTANCE_def)
  have dist: "0 < unat dist" using assms(2) by simp
  from assms(1) have pos: "unat (back_refs_pos d) = n mod ?W"
    and fl: "back_refs_filled d = (?W \<le> n)" and le: "n \<le> length ?E"
    by (simp_all add: window_holds_def)
  have "unat (back_refs_pos d) < ?W" using pos W by simp
  then have "unat ?start = (unat (back_refs_pos d) + ?W - unat dist) mod ?W"
    using assms(4) by (rule unat_copy_start_pos)
  also have "\<dots> = src_pos n (unat dist) 0"
    using pos assms(3,4) by (rule start_is_src_pos)
  finally have start: "unat ?start = src_pos n (unat dist) 0" .
  have guard: "\<not> (\<not> back_refs_filled d \<and> back_refs_pos d \<le> ?start)"
  proof
    assume a: "\<not> back_refs_filled d \<and> back_refs_pos d \<le> ?start"
    then have n: "n < ?W" using fl by simp
    then have "unat (back_refs_pos d) = n" using pos by simp
    moreover have "unat ?start = n - unat dist" using start n by (simp add: src_pos_def)
    moreover have "unat (back_refs_pos d) \<le> unat ?start" using a by (simp add: word_le_nat_alt)
    ultimately show False using dist assms(3) by arith
  qed
  from copy_loop_result [OF pos dist assms(3,4) start start assms(5), of 0 "\<lambda>_. 0"]
  obtain bytes where cl: "copy_loop d ?start ?start 0 (unat k) (\<lambda>_. 0) = Inr bytes"
    and b: "\<And>j. j < unat k \<Longrightarrow> bytes j = back_refs d (src_pos n (unat dist) j)"
    by auto
  have "bytes j = ?f j" if "j < unat k" for j
    using b [OF that] window_source [OF assms(1) dist assms(3,4)] by simp
  then have m: "map bytes [0..<unat k] = map ?f [0..<unat k]" by simp
  from handle_literal_codes_ok [OF assms(6)] obtain d'
    where h: "handle_literal_codes d (map bytes [0..<unat k]) = Inr d'" by blast
  have c: "copy_bytes_from_distance d k dist = Inr d'"
    using guard cl h by (simp add: copy_bytes_from_distance_def Let_def)
  have dl: "unat dist \<le> length ?E" using assms(3) le by simp
  have e: "emitted d' = byte_by_byte_copy ?E (unat dist) (unat k)"
    using handle_literal_codes_emitted [OF h] m byte_by_byte_copy_eq [OF dist dl, of "unat k"] by simp
  have w: "window_holds d' (n + unat k)"
    using window_holds_handle_literal_codes [OF h assms(1)] by simp
  have "emitted d' = ?E @ replicate (unat k) (last ?E)" if "dist = 1"
  proof -
    have "?E \<noteq> []" using dl dist by auto
    from byte_by_byte_copy_run [OF this, of "unat k"] e that show ?thesis by simp
  qed
  with c e w show ?thesis by blast
qed


lemma put_byte_out_pos: "out_pos (put_byte d c) = out_pos d + 1"
  by (simp add: put_byte_def Let_def)

lemma flush_if_full_out_pos:
  assumes "flush_if_full d = Inr d'" "out_pos d \<le> OUT_BUF_SIZE"
  shows "out_pos d' < OUT_BUF_SIZE" "out_pos d' = out_pos d mod OUT_BUF_SIZE"
  using assms
  by (auto simp: flush_if_full_def fwrite_def OUT_BUF_SIZE_def split: if_splits)

lemma flush_if_full_f_err:
  "flush_if_full d = Inr d' \<Longrightarrow> f_err (out_file d') = f_err (out_file d)"
  by (auto simp: flush_if_full_def fwrite_def split: if_splits)

lemma handle_literal_codes_loop_out_pos:
  "handle_literal_codes_loop d cs = Inr d' \<Longrightarrow> out_pos d \<le> OUT_BUF_SIZE \<Longrightarrow>
   out_pos d' \<le> OUT_BUF_SIZE \<and>
   out_pos d' mod OUT_BUF_SIZE = (out_pos d + length cs) mod OUT_BUF_SIZE \<and>
   f_err (out_file d') = f_err (out_file d)"
proof (induction cs arbitrary: d)
  case Nil
  then show ?case by simp
next
  case (Cons c cs)
  then obtain d1 where f: "flush_if_full d = Inr d1"
    and r: "handle_literal_codes_loop (put_byte d1 c) cs = Inr d'"
    by (auto split: sum.splits)
  note p1 = flush_if_full_out_pos [OF f Cons.prems(2)]
  from p1(1) have "out_pos (put_byte d1 c) \<le> OUT_BUF_SIZE"
    by (simp add: put_byte_out_pos)
  from Cons.IH [OF r this]
  have le: "out_pos d' \<le> OUT_BUF_SIZE"
    and m: "out_pos d' mod OUT_BUF_SIZE = (out_pos d1 + 1 + length cs) mod OUT_BUF_SIZE"
    and e: "f_err (out_file d') = f_err (out_file d1)"
    by (simp_all add: put_byte_out_pos put_byte_file)
  have "(out_pos d1 + 1 + length cs) mod OUT_BUF_SIZE
      = (out_pos d mod OUT_BUF_SIZE + (1 + length cs)) mod OUT_BUF_SIZE"
    by (simp only: p1(2) add.assoc)
  also have "\<dots> = (out_pos d + (1 + length cs)) mod OUT_BUF_SIZE"
    by (rule mod_add_left_eq)
  finally have "out_pos d' mod OUT_BUF_SIZE = (out_pos d + length (c # cs)) mod OUT_BUF_SIZE"
    using m by simp
  with le e flush_if_full_f_err [OF f] show ?case by simp
qed

lemma handle_literal_codes_out_pos:
  assumes "handle_literal_codes d cs = Inr d'" "out_pos d \<le> OUT_BUF_SIZE"
  shows "out_pos d' = (out_pos d + length cs) mod OUT_BUF_SIZE"
    and "f_err (out_file d') = f_err (out_file d)"
proof -
  from assms(1) obtain d1 where l: "handle_literal_codes_loop d cs = Inr d1"
    and f: "flush_if_full d1 = Inr d'"
    by (auto simp: handle_literal_codes_def split: sum.splits)
  from handle_literal_codes_loop_out_pos [OF l assms(2)]
  have le: "out_pos d1 \<le> OUT_BUF_SIZE"
    and m: "out_pos d1 mod OUT_BUF_SIZE = (out_pos d + length cs) mod OUT_BUF_SIZE"
    and e: "f_err (out_file d1) = f_err (out_file d)"
    by simp_all
  from flush_if_full_out_pos(2) [OF f le] m
  show "out_pos d' = (out_pos d + length cs) mod OUT_BUF_SIZE" by simp
  from flush_if_full_f_err [OF f] e
  show "f_err (out_file d') = f_err (out_file d)" by simp
qed

lemma handle_literal_codes_flushed:
  assumes "handle_literal_codes d cs = Inr d'" "out_pos d \<le> OUT_BUF_SIZE"
  shows "f_data (out_file d')
     = take (length (f_data (out_file d))
             + OUT_BUF_SIZE * ((out_pos d + length cs) div OUT_BUF_SIZE)) (emitted d')"
proof -
  let ?B = OUT_BUF_SIZE
  let ?t = "out_pos d + length cs"
  have e: "emitted d' = emitted d @ cs"
    using assms(1) by (rule handle_literal_codes_emitted)
  have l': "length (emitted d') = length (f_data (out_file d')) + out_pos d'"
    and l: "length (emitted d) = length (f_data (out_file d)) + out_pos d"
    by (simp_all add: emitted_def)
  have p: "out_pos d' = ?t mod ?B"
    using assms by (rule handle_literal_codes_out_pos(1))
  have "length (f_data (out_file d')) + ?t mod ?B = length (f_data (out_file d)) + ?t"
    using e l l' p by simp
  moreover have "?t = ?B * (?t div ?B) + ?t mod ?B" by simp
  ultimately have "length (f_data (out_file d'))
      = length (f_data (out_file d)) + ?B * (?t div ?B)"
    by linarith
  moreover have "f_data (out_file d') = take (length (f_data (out_file d'))) (emitted d')"
    by (simp add: emitted_def)
  ultimately show ?thesis by simp
qed

lemma flush_if_full_in_error:
  "f_err (out_file d) \<Longrightarrow>
   flush_if_full d =
     (if out_pos d = OUT_BUF_SIZE then Inl (Could_not_write_full_buffer, d) else Inr d)"
  by (simp add: flush_if_full_def fwrite_def OUT_BUF_SIZE_def)

lemma handle_literal_codes_loop_in_error:
  "f_err (out_file d) \<Longrightarrow> out_pos d \<le> OUT_BUF_SIZE \<Longrightarrow>
   (if out_pos d + length cs \<le> OUT_BUF_SIZE
    then \<exists>d'. handle_literal_codes_loop d cs = Inr d' \<and>
           out_pos d' = out_pos d + length cs \<and> f_err (out_file d')
    else \<exists>d'. handle_literal_codes_loop d cs = Inl (Could_not_write_full_buffer, d'))"
proof (induction cs arbitrary: d)
  case Nil
  then show ?case by simp
next
  case (Cons c cs)
  show ?case
  proof (cases "out_pos d = OUT_BUF_SIZE")
    case True
    with Cons.prems show ?thesis by (simp add: flush_if_full_in_error)
  next
    case False
    with Cons.prems have f: "flush_if_full d = Inr d" by (simp add: flush_if_full_in_error)
    from Cons.prems(1) have e: "f_err (out_file (put_byte d c))" by (simp add: put_byte_file)
    from False Cons.prems(2) have le: "out_pos (put_byte d c) \<le> OUT_BUF_SIZE"
      by (simp add: put_byte_out_pos)
    from Cons.IH [OF e le] f show ?thesis
      by (auto simp: put_byte_out_pos split: if_splits)
  qed
qed

lemma handle_literal_codes_in_error:
  assumes "f_err (out_file d)" "out_pos d \<le> OUT_BUF_SIZE"
  shows "if out_pos d + length cs < OUT_BUF_SIZE
    then \<exists>d'. handle_literal_codes d cs = Inr d'
    else \<exists>d'. handle_literal_codes d cs = Inl (Could_not_write_full_buffer, d')"
proof (cases "out_pos d + length cs \<le> OUT_BUF_SIZE")
  case True
  with handle_literal_codes_loop_in_error [OF assms, of cs] obtain d1
    where l: "handle_literal_codes_loop d cs = Inr d1"
      and p: "out_pos d1 = out_pos d + length cs" and e: "f_err (out_file d1)"
    by auto
  from l p flush_if_full_in_error [OF e] True show ?thesis
    by (auto simp: handle_literal_codes_def split: if_splits)
next
  case False
  with handle_literal_codes_loop_in_error [OF assms, of cs] show ?thesis
    by (auto simp: handle_literal_codes_def)
qed

lemma copy_bytes_from_distance_bytes:
  assumes "window_holds d n"
    and "1 \<le> unat dist" and "unat dist \<le> n" and "unat dist \<le> MAX_DISTANCE"
    and "unat k \<le> 258"
  shows "copy_bytes_from_distance d k dist
     = handle_literal_codes d
         (map (\<lambda>i. emitted d ! (length (emitted d) - unat dist + i mod unat dist))
            [0..<unat k])"
proof -
  let ?W = MAX_DISTANCE
  let ?E = "emitted d"
  let ?start = "copy_start_pos d dist"
  let ?f = "\<lambda>i. ?E ! (length ?E - unat dist + i mod unat dist)"
  have W: "0 < ?W" by (simp add: MAX_DISTANCE_def)
  have dist: "0 < unat dist" using assms(2) by simp
  from assms(1) have pos: "unat (back_refs_pos d) = n mod ?W"
    and fl: "back_refs_filled d = (?W \<le> n)"
    by (simp_all add: window_holds_def)
  have "unat (back_refs_pos d) < ?W" using pos W by simp
  then have "unat ?start = (unat (back_refs_pos d) + ?W - unat dist) mod ?W"
    using assms(4) by (rule unat_copy_start_pos)
  also have "\<dots> = src_pos n (unat dist) 0"
    using pos assms(3,4) by (rule start_is_src_pos)
  finally have start: "unat ?start = src_pos n (unat dist) 0" .
  have guard: "\<not> (\<not> back_refs_filled d \<and> back_refs_pos d \<le> ?start)"
  proof
    assume a: "\<not> back_refs_filled d \<and> back_refs_pos d \<le> ?start"
    then have n: "n < ?W" using fl by simp
    then have "unat (back_refs_pos d) = n" using pos by simp
    moreover have "unat ?start = n - unat dist" using start n by (simp add: src_pos_def)
    moreover have "unat (back_refs_pos d) \<le> unat ?start" using a by (simp add: word_le_nat_alt)
    ultimately show False using dist assms(3) by arith
  qed
  from copy_loop_result [OF pos dist assms(3,4) start start assms(5), of 0 "\<lambda>_. 0"]
  obtain bytes where cl: "copy_loop d ?start ?start 0 (unat k) (\<lambda>_. 0) = Inr bytes"
    and b: "\<And>j. j < unat k \<Longrightarrow> bytes j = back_refs d (src_pos n (unat dist) j)"
    by auto
  have "bytes j = ?f j" if "j < unat k" for j
    using b [OF that] window_source [OF assms(1) dist assms(3,4)] by simp
  then have m: "map bytes [0..<unat k] = map ?f [0..<unat k]" by simp
  show ?thesis
    using cl by (simp add: copy_bytes_from_distance_def Let_def m guard)
qed

lemma run_of_a_0: "run_of_a 0 fl = init_data [0] 0 fl"
  by (simp add: run_of_a_def init_data_def)

lemma put_byte_run_of_a:
  assumes "Suc m < OUT_BUF_SIZE"
  shows "put_byte (run_of_a m fl) 0x61 = run_of_a (Suc m) fl"
proof -
  from assms have m: "m < 8191" by (simp add: OUT_BUF_SIZE_def)
  then have u: "unat (of_nat m :: 16 word) = m"
    by (simp add: unat_of_nat)
  from m have md: "Suc m mod MAX_DISTANCE = Suc m"
    by (simp add: MAX_DISTANCE_def)
  have "unat (of_nat (Suc m) :: 16 word) = Suc m"
    using m by (simp only: unat_of_nat) simp
  then have nz: "(of_nat (Suc m) :: 16 word) \<noteq> 0"
    by (metis nat.simps(3) unat_0)
  have f: "(\<lambda>i. if i < m then 0x61 else (0 :: 8 word))(m := 0x61)
      = (\<lambda>i. if i < Suc m then 0x61 else 0)"
    by (auto simp: fun_eq_iff)
  show ?thesis
    using nz by (simp add: put_byte_def run_of_a_def Let_def u md f del: of_nat_Suc)
qed

lemma handle_literal_codes_loop_run_of_a:
  "j + m < OUT_BUF_SIZE \<Longrightarrow>
   handle_literal_codes_loop (run_of_a j fl) (replicate m 0x61) = Inr (run_of_a (j + m) fl)"
proof (induction m arbitrary: j)
  case 0
  then show ?case by simp
next
  case (Suc m)
  then have j: "Suc j < OUT_BUF_SIZE" and r: "Suc j + m < OUT_BUF_SIZE" by simp_all
  from j have f: "flush_if_full (run_of_a j fl) = Inr (run_of_a j fl)"
    by (simp add: flush_if_full_def run_of_a_def)
  from Suc.IH [OF r] show ?case
    by (simp add: f put_byte_run_of_a [OF j])
qed

lemma run_of_a_reached:
  assumes "m < OUT_BUF_SIZE"
  shows "handle_literal_codes (init_data [0] 0 fl) (replicate m 0x61) = Inr (run_of_a m fl)"
proof -
  from assms have "0 + m < OUT_BUF_SIZE" by simp
  from handle_literal_codes_loop_run_of_a [OF this, of fl]
  have "handle_literal_codes_loop (init_data [0] 0 fl) (replicate m 0x61) = Inr (run_of_a m fl)"
    by (simp add: run_of_a_0)
  moreover from assms have "flush_if_full (run_of_a m fl) = Inr (run_of_a m fl)"
    by (simp add: flush_if_full_def run_of_a_def)
  ultimately show ?thesis by (simp add: handle_literal_codes_def)
qed

lemma window_holds_run_of_a:
  assumes "m < OUT_BUF_SIZE"
  shows "window_holds (run_of_a m fl) m"
  using window_holds_handle_literal_codes [OF run_of_a_reached [OF assms] window_holds_init]
  by simp

lemma emitted_run_of_a:
  assumes "m < OUT_BUF_SIZE"
  shows "emitted (run_of_a m fl) = f_data fl @ replicate m 0x61"
  using handle_literal_codes_emitted [OF run_of_a_reached [OF assms, of fl]]
  by (simp add: emitted_def init_data_def)

text \<open>
  Claim C3, amended. Let \<open>n\<close> bytes have been emitted into the window, the output
  buffer hold at most its 8192 bytes (it is empty in the initial state, and a
  successful copy leaves fewer than 8192), and take a distance between 1 and
  \<open>min n 32768\<close> and a length of at most 258 (so every length from 3 to 258).

  If the output stream is not in error, or the copy does not fill the output buffer,
  the back reference succeeds, and the bytes emitted afterwards are those emitted
  before followed by the byte-by-byte copy, in which a byte of the copy is the source
  of a later one when the distance is smaller than the length. The window has
  received the same bytes: it holds the end of the new stream, at the new count. With
  distance 1 the copy is \<open>k\<close> times the byte emitted last. The sink has received them
  too: the stream holds the bytes written before and every full buffer of 8192 bytes
  since, in the order of emission, and the bytes after them are pending in the
  buffer, fewer than 8192.

  If the output stream is in error and the copy fills the output buffer, the back
  reference fails with the diagnostic of the rejected write.
\<close>

theorem back_reference_copy:
  assumes "window_holds d n"
    and "1 \<le> unat dist" and "unat dist \<le> n" and "unat dist \<le> MAX_DISTANCE"
    and "unat k \<le> 258"
    and "out_pos d \<le> OUT_BUF_SIZE"
  shows "(\<not> f_err (out_file d) \<or> out_pos d + unat k < OUT_BUF_SIZE \<longrightarrow>
           (\<exists>d'. copy_bytes_from_distance d k dist = Inr d' \<and>
              emitted d' = byte_by_byte_copy (emitted d) (unat dist) (unat k) \<and>
              window_holds d' (n + unat k) \<and>
              (dist = 1 \<longrightarrow> emitted d' = emitted d @ replicate (unat k) (last (emitted d))) \<and>
              out_pos d' = (out_pos d + unat k) mod OUT_BUF_SIZE \<and>
              f_data (out_file d')
                = take (length (f_data (out_file d))
                        + OUT_BUF_SIZE * ((out_pos d + unat k) div OUT_BUF_SIZE)) (emitted d') \<and>
              f_err (out_file d') = f_err (out_file d))) \<and>
         (f_err (out_file d) \<and> OUT_BUF_SIZE \<le> out_pos d + unat k \<longrightarrow>
            failure (copy_bytes_from_distance d k dist) = Some Could_not_write_full_buffer)"
proof (intro conjI impI)
  let ?E = "emitted d"
  let ?cs = "map (\<lambda>i. ?E ! (length ?E - unat dist + i mod unat dist)) [0..<unat k]"
  have c: "copy_bytes_from_distance d k dist = handle_literal_codes d ?cs"
    using assms(1-5) by (rule copy_bytes_from_distance_bytes)
  have len: "length ?cs = unat k" by simp
  have dist: "0 < unat dist" using assms(2) by simp
  from assms(1) have "n \<le> length ?E" by (simp add: window_holds_def)
  with assms(3) have dl: "unat dist \<le> length ?E" by simp
  {
    assume a: "\<not> f_err (out_file d) \<or> out_pos d + unat k < OUT_BUF_SIZE"
    have "\<exists>d'. handle_literal_codes d ?cs = Inr d'"
    proof (cases "f_err (out_file d)")
      case False
      with handle_literal_codes_ok [of d ?cs] show ?thesis by blast
    next
      case True
      with a have "out_pos d + length ?cs < OUT_BUF_SIZE" by simp
      with handle_literal_codes_in_error [OF True assms(6), of ?cs] show ?thesis
        by (simp only: if_True)
    qed
    then obtain d' where h: "handle_literal_codes d ?cs = Inr d'" by blast
    have e: "emitted d' = byte_by_byte_copy ?E (unat dist) (unat k)"
      using handle_literal_codes_emitted [OF h] byte_by_byte_copy_eq [OF dist dl, of "unat k"]
      by simp
    have w: "window_holds d' (n + unat k)"
      using window_holds_handle_literal_codes [OF h assms(1)] by simp
    have r: "emitted d' = ?E @ replicate (unat k) (last ?E)" if "dist = 1"
    proof -
      have "?E \<noteq> []" using dl dist by auto
      from byte_by_byte_copy_run [OF this, of "unat k"] e that show ?thesis by simp
    qed
    have p: "out_pos d' = (out_pos d + unat k) mod OUT_BUF_SIZE"
      and fe: "f_err (out_file d') = f_err (out_file d)"
      using handle_literal_codes_out_pos [OF h assms(6)] by (simp_all only: len)
    have fd: "f_data (out_file d')
        = take (length (f_data (out_file d))
                + OUT_BUF_SIZE * ((out_pos d + unat k) div OUT_BUF_SIZE)) (emitted d')"
      using handle_literal_codes_flushed [OF h assms(6)] by (simp only: len)
    from h e w r p fd fe
    show "\<exists>d'. copy_bytes_from_distance d k dist = Inr d' \<and>
        emitted d' = byte_by_byte_copy (emitted d) (unat dist) (unat k) \<and>
        window_holds d' (n + unat k) \<and>
        (dist = 1 \<longrightarrow> emitted d' = emitted d @ replicate (unat k) (last (emitted d))) \<and>
        out_pos d' = (out_pos d + unat k) mod OUT_BUF_SIZE \<and>
        f_data (out_file d')
          = take (length (f_data (out_file d))
                  + OUT_BUF_SIZE * ((out_pos d + unat k) div OUT_BUF_SIZE)) (emitted d') \<and>
        f_err (out_file d') = f_err (out_file d)"
      unfolding c by blast
  }
  {
    assume a: "f_err (out_file d) \<and> OUT_BUF_SIZE \<le> out_pos d + unat k"
    then have "\<not> out_pos d + length ?cs < OUT_BUF_SIZE" by simp
    with handle_literal_codes_in_error [of d ?cs] a assms(6)
    obtain d' where "handle_literal_codes d ?cs = Inl (Could_not_write_full_buffer, d')"
      by (auto simp only: if_False)
    then show "failure (copy_bytes_from_distance d k dist) = Some Could_not_write_full_buffer"
      unfolding c by (simp add: failure_def)
  }
qed

lemma window_holds_after_a: "window_holds after_a 1"
  unfolding after_a_def using window_holds_put_byte [OF window_holds_init] by simp

lemma window_holds_after_ab: "window_holds after_ab 2"
  unfolding after_ab_def
  using window_holds_put_byte [OF window_holds_put_byte [OF window_holds_init]]
  by (simp add: numeral_2_eq_2)

text \<open>
  After the byte a, length 3 at distance 1 gives aaaa; after ab, length 5 at
  distance 2 gives abababa: nothing is written to the stream. After 8190 bytes a,
  length 3 at distance 1 fills the buffer with its second byte: the stream receives
  the 8192 bytes of the buffer and one byte is pending; on a stream in error the same
  copy fails, and the copy after 8188 bytes, which does not fill the buffer, succeeds.
\<close>

theorem back_reference_copy_witness:
  "(\<exists>d'. copy_bytes_from_distance after_a 3 1 = Inr d' \<and>
      emitted after_a = [0x61] \<and> emitted d' = [0x61, 0x61, 0x61, 0x61] \<and>
      window_holds d' 4 \<and> out_pos d' = 4 \<and> f_data (out_file d') = []) \<and>
   (\<exists>d'. copy_bytes_from_distance after_ab 5 2 = Inr d' \<and>
      emitted after_ab = [0x61, 0x62] \<and>
      emitted d' = [0x61, 0x62, 0x61, 0x62, 0x61, 0x62, 0x61] \<and>
      window_holds d' 7 \<and> out_pos d' = 7 \<and> f_data (out_file d') = []) \<and>
   (\<exists>d'. copy_bytes_from_distance (run_of_a 8190 new_file) 3 1 = Inr d' \<and>
      emitted (run_of_a 8190 new_file) = replicate 8190 0x61 \<and>
      emitted d' = replicate 8193 0x61 \<and>
      window_holds d' 8193 \<and> out_pos d' = 1 \<and>
      f_data (out_file d') = replicate 8192 0x61) \<and>
   failure (copy_bytes_from_distance (run_of_a 8190 file_in_error) 3 1)
     = Some Could_not_write_full_buffer \<and>
   (\<exists>d'. copy_bytes_from_distance (run_of_a 8188 file_in_error) 3 1 = Inr d' \<and>
      emitted d' = replicate 8191 0x61 \<and> window_holds d' 8191 \<and> out_pos d' = 8191 \<and>
      f_data (out_file d') = [] \<and> f_err (out_file d'))"
proof -
  have a: "emitted after_a = [0x61]" and ab: "emitted after_ab = [0x61, 0x62]"
    by (simp_all add: after_a_def after_ab_def emitted_put_byte)
      (simp_all add: emitted_def init_data_def new_file_def)
  have f: "\<not> f_err (out_file after_a)" "\<not> f_err (out_file after_ab)"
    "f_data (out_file after_a) = []" "f_data (out_file after_ab) = []"
    by (simp_all add: after_a_def after_ab_def put_byte_file init_data_def new_file_def)
  have p: "out_pos after_a = 1" "out_pos after_ab = 2"
    by (simp_all add: after_a_def after_ab_def put_byte_out_pos init_data_def)
  have l1: "byte_by_byte_copy [0x61] (Suc 0) 3 = [0x61, 0x61, 0x61, 0x61]"
    and l2: "byte_by_byte_copy [0x61, 0x62] 2 5 = [0x61, 0x62, 0x61, 0x62, 0x61, 0x62, 0x61]"
    by code_simp+
  have w0: "window_holds (run_of_a 8190 new_file) 8190"
    and w1: "window_holds (run_of_a 8190 file_in_error) 8190"
    and w2: "window_holds (run_of_a 8188 file_in_error) 8188"
    by (rule window_holds_run_of_a, simp add: OUT_BUF_SIZE_def)+
  have e0: "emitted (run_of_a 8190 new_file) = replicate 8190 0x61"
    and e2: "emitted (run_of_a 8188 file_in_error) = replicate 8188 0x61"
    by (simp_all add: emitted_run_of_a OUT_BUF_SIZE_def new_file_def file_in_error_def)
  have r: "out_pos (run_of_a m fl) = m" "out_file (run_of_a m fl) = fl" for m fl
    by (simp_all add: run_of_a_def)
  have fl: "\<not> f_err new_file" "f_err file_in_error" "f_data new_file = []"
    "f_data file_in_error = []"
    by (simp_all add: new_file_def file_in_error_def)
  have j0: "replicate 8190 x @ replicate 3 x = replicate 8193 x"
    and j2: "replicate 8188 x @ replicate 3 x = replicate 8191 x" for x :: "8 word"
    by (simp_all flip: replicate_add)
  have t0: "take 8192 (replicate 8193 x) = replicate 8192 x" for x :: "8 word"
    by simp
  have b0: "byte_by_byte_copy (replicate 8190 x) (Suc 0) 3 = replicate 8193 x"
    and b2: "byte_by_byte_copy (replicate 8188 x) (Suc 0) 3 = replicate 8191 x"
    for x :: "8 word"
    using byte_by_byte_copy_run [of "replicate 8190 x" 3]
      byte_by_byte_copy_run [of "replicate 8188 x" 3]
    by (simp_all add: j0 j2)
  have c1: "\<exists>d'. copy_bytes_from_distance after_a 3 1 = Inr d' \<and>
      emitted after_a = [0x61] \<and> emitted d' = [0x61, 0x61, 0x61, 0x61] \<and>
      window_holds d' 4 \<and> out_pos d' = 4 \<and> f_data (out_file d') = []"
    using back_reference_copy [OF window_holds_after_a, of 1 3]
    by (simp add: MAX_DISTANCE_def OUT_BUF_SIZE_def a l1 f p) blast
  have c2: "\<exists>d'. copy_bytes_from_distance after_ab 5 2 = Inr d' \<and>
      emitted after_ab = [0x61, 0x62] \<and>
      emitted d' = [0x61, 0x62, 0x61, 0x62, 0x61, 0x62, 0x61] \<and>
      window_holds d' 7 \<and> out_pos d' = 7 \<and> f_data (out_file d') = []"
    using back_reference_copy [OF window_holds_after_ab, of 2 5]
    by (simp add: MAX_DISTANCE_def OUT_BUF_SIZE_def ab l2 f p) blast
  have c3: "\<exists>d'. copy_bytes_from_distance (run_of_a 8190 new_file) 3 1 = Inr d' \<and>
      emitted (run_of_a 8190 new_file) = replicate 8190 0x61 \<and>
      emitted d' = replicate 8193 0x61 \<and>
      window_holds d' 8193 \<and> out_pos d' = 1 \<and>
      f_data (out_file d') = replicate 8192 0x61"
    using back_reference_copy [OF w0, of 1 3]
    by (auto simp: MAX_DISTANCE_def OUT_BUF_SIZE_def e0 r fl j0 b0 t0)
  have c4: "failure (copy_bytes_from_distance (run_of_a 8190 file_in_error) 3 1)
      = Some Could_not_write_full_buffer"
    using back_reference_copy [OF w1, of 1 3]
    by (simp add: MAX_DISTANCE_def OUT_BUF_SIZE_def r fl)
  have c5: "\<exists>d'. copy_bytes_from_distance (run_of_a 8188 file_in_error) 3 1 = Inr d' \<and>
      emitted d' = replicate 8191 0x61 \<and> window_holds d' 8191 \<and> out_pos d' = 8191 \<and>
      f_data (out_file d') = [] \<and> f_err (out_file d')"
    using back_reference_copy [OF w2, of 1 3]
    by (auto simp: MAX_DISTANCE_def OUT_BUF_SIZE_def e2 r fl j2 b2)
  from c1 c2 c3 c4 c5 show ?thesis by (intro conjI)
qed

text \<open>
  Claim C3 as stated does not hold in every state: after 8190 bytes a, pending in
  the output buffer in front of a stream in error, the back reference of length 3 at
  distance 1 fails when its second byte has filled the buffer.
\<close>

theorem back_reference_copy_counterexample:
  "window_holds (run_of_a 8190 file_in_error) 8190 \<and>
   emitted (run_of_a 8190 file_in_error) = replicate 8190 0x61 \<and>
   out_pos (run_of_a 8190 file_in_error) = 8190 \<and>
   handle_literal_codes (init_data [0] 0 file_in_error) (replicate 8190 0x61)
     = Inr (run_of_a 8190 file_in_error) \<and>
   failure (copy_bytes_from_distance (run_of_a 8190 file_in_error) 3 1)
     = Some Could_not_write_full_buffer"
proof -
  have lt: "8190 < OUT_BUF_SIZE" by (simp add: OUT_BUF_SIZE_def)
  have w: "window_holds (run_of_a 8190 file_in_error) 8190"
    using lt by (rule window_holds_run_of_a)
  have e: "emitted (run_of_a 8190 file_in_error) = replicate 8190 0x61"
    using lt by (simp add: emitted_run_of_a file_in_error_def)
  have r: "handle_literal_codes (init_data [0] 0 file_in_error) (replicate 8190 0x61)
      = Inr (run_of_a 8190 file_in_error)"
    using lt by (rule run_of_a_reached)
  have s: "copy_start_pos (run_of_a 8190 file_in_error) 1 = 8189"
    by (simp add: copy_start_pos_def run_of_a_def MAX_DISTANCE_def smod_int_alt_def)
  have u: "[0..<3] = [0, 1, 2 :: nat]" by code_simp
  have c: "failure (copy_bytes_from_distance (run_of_a 8190 file_in_error) 3 1)
      = Some Could_not_write_full_buffer"
    by (simp add: copy_bytes_from_distance_def s Let_def)
      (simp add: run_of_a_def file_in_error_def copy_loop.simps next_copy_pos_def
        handle_literal_codes_def flush_if_full_def put_byte_def fwrite_def failure_def
        Let_def OUT_BUF_SIZE_def MAX_DISTANCE_def u)
  have p: "out_pos (run_of_a 8190 file_in_error) = 8190"
    by (simp add: run_of_a_def)
  from w e p r c show ?thesis by (intro conjI)
qed


lemma distance_from_distance_code_range:
  assumes "distance_from_distance_code d c = Inr (dist, d')"
  shows "1 \<le> unat dist \<and> unat dist \<le> 32768"
proof -
  from assms have "\<not> (dist < 1 \<or> dist > 32768)"
    by (auto simp: distance_from_distance_code_def Let_def split: if_splits sum.splits prod.splits)
  then show ?thesis
    by (simp add: word_less_nat_alt not_less)
qed

lemma back_reference_distance_range:
  assumes "back_reference_01 d0 c = Inr (l, dist, d) \<or>
           back_reference_10 d0 d_root c = Inr (l, dist, d)"
  shows "1 \<le> unat dist \<and> unat dist \<le> 32768"
  using assms
  by (auto simp: back_reference_01_def back_reference_10_def
      split: sum.splits prod.splits dest: distance_from_distance_code_range)

lemma copy_accepts_only_emitted:
  assumes w: "window_holds d n"
    and r: "1 \<le> unat dist" "unat dist \<le> 32768"
    and c: "copy_bytes_from_distance d l dist = Inr d'"
  shows "unat dist \<le> n"
proof (cases "back_refs_filled d")
  case True
  with w have "MAX_DISTANCE \<le> n" by (simp add: window_holds_def)
  with r show ?thesis by (simp add: MAX_DISTANCE_def)
next
  case False
  let ?W = MAX_DISTANCE
  from w False have n: "n < ?W" and pos: "unat (back_refs_pos d) = n"
    by (simp_all add: window_holds_def)
  from c False have "\<not> back_refs_pos d \<le> copy_start_pos d dist"
    by (auto simp: copy_bytes_from_distance_def Let_def split: if_splits)
  then have lt: "unat (copy_start_pos d dist) < n"
    using pos by (simp add: word_le_nat_alt)
  have dW: "unat dist \<le> ?W" using r by (simp add: MAX_DISTANCE_def)
  have s: "unat (copy_start_pos d dist) = (n + ?W - unat dist) mod ?W"
    using unat_copy_start_pos [of d dist] pos n dW by simp
  show ?thesis
  proof (rule ccontr)
    assume "\<not> unat dist \<le> n"
    then have "n + ?W - unat dist < ?W" using dW by arith
    then have "(n + ?W - unat dist) mod ?W = n + ?W - unat dist" by simp
    with s lt dW show False by arith
  qed
qed

lemma uint_copy_start_pos:
  assumes "unat (back_refs_pos d) < MAX_DISTANCE" "unat dist \<le> MAX_DISTANCE"
  shows "uint (copy_start_pos d dist) = (uint (back_refs_pos d) - uint dist) mod 32768"
proof -
  let ?p = "unat (back_refs_pos d)" and ?k = "unat dist"
  have "uint (copy_start_pos d dist) = int (unat (copy_start_pos d dist))" by (rule uint_nat)
  also have "\<dots> = int ((?p + MAX_DISTANCE - ?k) mod MAX_DISTANCE)"
    by (simp only: unat_copy_start_pos [OF assms])
  also have "\<dots> = (int ?p + 32768 - int ?k) mod 32768"
    using assms(2) by (simp add: zmod_int MAX_DISTANCE_def of_nat_diff)
  also have "\<dots> = (int ?p - int ?k + 32768) mod 32768" by (simp add: algebra_simps)
  also have "\<dots> = (int ?p - int ?k) mod 32768" by simp
  also have "int ?p = uint (back_refs_pos d)" by (rule uint_nat [symmetric])
  also have "int ?k = uint dist" by (rule uint_nat [symmetric])
  finally show ?thesis .
qed

text \<open>
  Claim C4. Let \<open>n\<close> bytes have been emitted into the window. A back reference that
  either loop decodes and \<^verbatim>\<open>copy_bytes_from_distance\<close> accepts has a distance of at
  least 1, at most 32768 and at most \<open>n\<close>. For a distance in that range the start
  position that the copy computes is \<open>(w - d) mod 32768\<close>. While the window has not
  wrapped, a start position at or after the write position makes the copy fail with
  the diagnostic of the back reference check, and the state it leaves is the state
  it was given: no byte is emitted.
\<close>

theorem back_reference_distance_valid:
  assumes "window_holds d n"
  shows "((back_reference_01 d0 c = Inr (l, dist, d) \<or>
           back_reference_10 d0 d_root c = Inr (l, dist, d)) \<and>
          (\<exists>d'. copy_bytes_from_distance d l dist = Inr d') \<longrightarrow>
            1 \<le> unat dist \<and> unat dist \<le> 32768 \<and> unat dist \<le> n) \<and>
         (1 \<le> unat dist \<and> unat dist \<le> 32768 \<longrightarrow>
            uint (copy_start_pos d dist) = (uint (back_refs_pos d) - uint dist) mod 32768) \<and>
         (\<not> back_refs_filled d \<and> back_refs_pos d \<le> copy_start_pos d dist \<longrightarrow>
            copy_bytes_from_distance d l dist = Inl (Invalid_back_reference, d))"
proof (intro conjI impI)
  assume a: "(back_reference_01 d0 c = Inr (l, dist, d) \<or>
      back_reference_10 d0 d_root c = Inr (l, dist, d)) \<and>
     (\<exists>d'. copy_bytes_from_distance d l dist = Inr d')"
  then have r: "1 \<le> unat dist \<and> unat dist \<le> 32768"
    using back_reference_distance_range by blast
  then show "1 \<le> unat dist" "unat dist \<le> 32768" by simp_all
  from a obtain d' where "copy_bytes_from_distance d l dist = Inr d'" by blast
  with assms r show "unat dist \<le> n" using copy_accepts_only_emitted by blast
next
  assume "1 \<le> unat dist \<and> unat dist \<le> 32768"
  moreover have "unat (back_refs_pos d) < MAX_DISTANCE"
    using assms by (simp add: window_holds_def MAX_DISTANCE_def)
  ultimately show "uint (copy_start_pos d dist) = (uint (back_refs_pos d) - uint dist) mod 32768"
    by (intro uint_copy_start_pos) (simp_all add: MAX_DISTANCE_def)
next
  assume "\<not> back_refs_filled d \<and> back_refs_pos d \<le> copy_start_pos d dist"
  then show "copy_bytes_from_distance d l dist = Inl (Invalid_back_reference, d)"
    by (simp add: copy_bytes_from_distance_def Let_def)
qed


lemma window_holds_cursor:
  "window_holds (d\<lparr>byte_pos := b\<rparr>) n = window_holds d n"
  "window_holds (d\<lparr>buf_pos := p\<rparr>) n = window_holds d n"
  by (simp_all add: window_holds_def)

text \<open>
  After one byte, the reference of length 3 at distance 1 is decoded and accepted;
  on the empty window the same reference starts at 32767 and is rejected.
\<close>

theorem back_reference_distance_valid_witness:
  "window_holds (after_a\<lparr>byte_pos := 5\<rparr>) 1 \<and>
   back_reference_01 after_a 257 = Inr (3, 1, after_a\<lparr>byte_pos := 5\<rparr>) \<and>
   (\<exists>d'. copy_bytes_from_distance (after_a\<lparr>byte_pos := 5\<rparr>) 3 1 = Inr d') \<and>
   window_holds (init_data [0] 0 new_file) 0 \<and>
   uint (copy_start_pos (init_data [0] 0 new_file) 1) = 32767 \<and>
   \<not> back_refs_filled (init_data [0] 0 new_file) \<and>
   back_refs_pos (init_data [0] 0 new_file) \<le> copy_start_pos (init_data [0] 0 new_file) 1 \<and>
   copy_bytes_from_distance (init_data [0] 0 new_file) 3 1
     = Inl (Invalid_back_reference, init_data [0] 0 new_file)"
proof -
  let ?d = "after_a\<lparr>byte_pos := 5\<rparr>"
  let ?i = "init_data [0] 0 new_file"
  have wh: "window_holds ?d 1"
    using window_holds_after_a by (simp add: window_holds_cursor)
  have br: "back_reference_01 after_a 257 = Inr (3, 1, ?d)"
    by (simp add: back_reference_01_def length_from_length_code_def
        distance_from_distance_code_def is_length_code_def is_distance_code_def
        length_data_def dist_data_def vb_def read_bits_def read_bits_loop.simps
        after_a_def put_byte_def init_data_def buf_len_def increment_bit_position_def
        current_bit_def Let_def MAX_DISTANCE_def)
  have cp: "\<exists>d'. copy_bytes_from_distance ?d 3 1 = Inr d'"
    using copy_bytes_from_distance_stream [OF wh, of 1 3]
    by (auto simp: MAX_DISTANCE_def after_a_def put_byte_file init_data_def new_file_def)
  have st: "copy_start_pos ?i 1 = 32767"
    by (simp add: copy_start_pos_def init_data_def MAX_DISTANCE_def smod_int_alt_def)
  have i0: "window_holds ?i 0" by (rule window_holds_init)
  have nf: "\<not> back_refs_filled ?i" and le: "back_refs_pos ?i \<le> copy_start_pos ?i 1"
    by (simp_all add: st) (simp_all add: init_data_def)
  have t1: "1 \<le> unat (1 :: 16 word) \<and> unat (1 :: 16 word) \<le> 32768 \<and> unat (1 :: 16 word) \<le> 1"
    using back_reference_distance_valid [OF wh, where ?d0.0 = after_a and c = 257
        and l = 3 and dist = 1] br cp by blast
  have t2: "copy_bytes_from_distance ?i 3 1 = Inl (Invalid_back_reference, ?i)"
    using back_reference_distance_valid [OF i0, where l = 3 and dist = 1] nf le by blast
  show ?thesis
    using wh br cp i0 nf le t1 t2 by (simp add: st)
qed

subsection \<open>Repeat codes in the code-length sequence\<close>

lemma store_code_length_fields [simp]:
  "cnt (store_code_length ll v s) = cnt s + 1"
  "data (store_code_length ll v s) = data s"
  "previous_code_length (store_code_length ll v s) = previous_code_length s"
  "length (ll_code_lengths (store_code_length ll v s)) = length (ll_code_lengths s)"
  "length (d_code_lengths (store_code_length ll v s)) = length (d_code_lengths s)"
  by (simp_all add: store_code_length_def)

lemma cl_arrays_store [simp]:
  "cl_arrays ll t (store_code_length ll v s) = cl_arrays ll t s"
  by (simp add: cl_arrays_def)

lemma code_lengths_so_far_store:
  assumes "cl_arrays ll t s" "cnt s < t"
  shows "code_lengths_so_far ll (store_code_length ll v s) = code_lengths_so_far ll s @ [v]"
proof (cases "cnt s < ll")
  case True
  let ?xs = "take ll (ll_code_lengths s)"
  from assms True have l: "cnt s < length ?xs" by (simp add: cl_arrays_def)
  have "take (Suc (cnt s)) (?xs[cnt s := v] @ d_code_lengths s)
      = take (cnt s) (?xs @ d_code_lengths s) @ [v]"
    using l by (simp add: take_Suc_conv_app_nth nth_append)
  then show ?thesis using True
    by (simp add: code_lengths_so_far_def store_code_length_def take_update_swap)
next
  case False
  let ?xs = "take ll (ll_code_lengths s)" and ?ds = "d_code_lengths s"
  from assms have lx: "length ?xs = ll" by (simp add: cl_arrays_def)
  from assms False have ld: "cnt s - ll < length ?ds" by (auto simp: cl_arrays_def)
  have i: "cnt s = ll + (cnt s - ll)" using False by simp
  have e: "Suc (cnt s) - ll = Suc (cnt s - ll)" using False by simp
  have "take (Suc (cnt s - ll)) (?ds[cnt s - ll := v]) = take (cnt s - ll) ?ds @ [v]"
    using ld by (simp add: take_Suc_conv_app_nth)
  then have "take (Suc (cnt s)) (?xs @ ?ds[cnt s - ll := v])
      = take (cnt s) (?xs @ ?ds) @ [v]"
    using lx False by (simp add: e)
  then show ?thesis using False
    by (simp add: code_lengths_so_far_def store_code_length_def)
qed

lemma repeat_loop_exceeds:
  "cnt s \<le> total_cnt \<Longrightarrow> total_cnt < cnt s + n \<Longrightarrow>
     repeat_loop n v ll total_cnt s = Inl (Repeat_code_exceeds_total, data s)"
  by (induction n arbitrary: s) auto

lemma repeat_loop_ok:
  "cl_arrays ll total_cnt s \<Longrightarrow> cnt s + n \<le> total_cnt \<Longrightarrow>
     \<exists>s'. repeat_loop n v ll total_cnt s = Inr s' \<and>
       code_lengths_so_far ll s' = code_lengths_so_far ll s @ replicate n v \<and>
       cnt s' = cnt s + n \<and> data s' = data s \<and>
       previous_code_length s' = previous_code_length s \<and> cl_arrays ll total_cnt s'"
proof (induction n arbitrary: s)
  case 0
  then show ?case by simp
next
  case (Suc n)
  let ?s1 = "store_code_length ll v s"
  from Suc.prems have lt: "cnt s < total_cnt" by simp
  have a: "cl_arrays ll total_cnt ?s1" using Suc.prems(1) by simp
  have b: "cnt ?s1 + n \<le> total_cnt" using Suc.prems(2) by simp
  from Suc.IH [OF a b] obtain s' where
    r: "repeat_loop n v ll total_cnt ?s1 = Inr s'"
    and c: "code_lengths_so_far ll s' = code_lengths_so_far ll ?s1 @ replicate n v"
    and o: "cnt s' = cnt ?s1 + n" "data s' = data ?s1"
      "previous_code_length s' = previous_code_length ?s1" "cl_arrays ll total_cnt s'"
    by blast
  have "code_lengths_so_far ll s' = code_lengths_so_far ll s @ replicate (Suc n) v"
    using c code_lengths_so_far_store [OF Suc.prems(1) lt, of v]
    by (simp add: replicate_app_Cons_same)
  with r o lt show ?case by simp
qed


lemma repeat_loop_le:
  "repeat_loop n v ll total_cnt s = Inr s' \<Longrightarrow> cnt s \<le> total_cnt \<Longrightarrow>
     cnt s' \<le> total_cnt \<and> cl_arrays ll total_cnt s' = cl_arrays ll total_cnt s"
  by (induction n arbitrary: s) (auto split: if_splits)

lemma code_lengths_so_far_update [simp]:
  "code_lengths_so_far ll (s\<lparr>data := d\<rparr>) = code_lengths_so_far ll s"
  "code_lengths_so_far ll (s\<lparr>previous_code_length := p\<rparr>) = code_lengths_so_far ll s"
  by (simp_all add: code_lengths_so_far_def)

lemma cl_arrays_update [simp]:
  "cl_arrays ll t (s\<lparr>data := d\<rparr>) = cl_arrays ll t s"
  "cl_arrays ll t (s\<lparr>previous_code_length := p\<rparr>) = cl_arrays ll t s"
  by (simp_all add: cl_arrays_def)

lemma length_code_lengths_so_far:
  "cl_arrays ll t s \<Longrightarrow> cnt s \<le> t \<Longrightarrow> length (code_lengths_so_far ll s) = cnt s"
  by (auto simp: code_lengths_so_far_def cl_arrays_def)

lemma repeat_count:
  assumes "read_bits d bits = Inr (tmp, d')" "bits \<le> 7" "unat k \<le> 11"
  shows "unat (tmp + k) = unat tmp + unat k" "unat tmp < 2 ^ bits"
proof -
  show b: "unat tmp < 2 ^ bits" using assms(1) by (rule read_bits_bound)
  also have "(2::nat) ^ bits \<le> 2 ^ 7" using assms(2) by (intro power_increasing) auto
  finally have "unat tmp < 128" by simp
  with assms(3) show "unat (tmp + k) = unat tmp + unat k"
    by (simp add: unat_word_ariths)
qed

lemma cl_step_literal:
  assumes "find_huffman_code (data s) cl_root = Inr (edge, d1)"
    and "0 \<le> code edge" "code edge \<le> 15"
  shows "cl_step cl_root ll total_cnt s =
     Inr ((store_code_length ll (nat (code edge)) (s\<lparr>data := d1\<rparr>))
            \<lparr>previous_code_length := nat (code edge)\<rparr>)"
  using assms by (simp add: cl_step_def is_code_length_code_def)

lemma cl_step_16:
  assumes "find_huffman_code (data s) cl_root = Inr (edge, d1)"
    and "code edge = 16" "0 < cnt s" "read_bits d1 2 = Inr (tmp, d2)"
  shows "cl_step cl_root ll total_cnt s =
     repeat_loop (unat tmp + 3) (previous_code_length s) ll total_cnt (s\<lparr>data := d2\<rparr>)"
  using assms repeat_count(1) [OF assms(4), of 3]
  by (simp add: cl_step_def is_code_length_code_def)

lemma cl_step_17_18:
  assumes "find_huffman_code (data s) cl_root = Inr (edge, d1)"
    and "code edge = 17 \<or> code edge = 18"
    and "read_bits d1 (if code edge = 17 then 3 else 7) = Inr (tmp, d2)"
  shows "cl_step cl_root ll total_cnt s =
     repeat_loop (unat tmp + (if code edge = 17 then 3 else 11)) 0 ll total_cnt
       (s\<lparr>data := d2, previous_code_length := 0\<rparr>)"
proof (cases "code edge = 17")
  case True
  with assms repeat_count(1) [of d1 3 tmp d2 3] show ?thesis
    by (simp add: cl_step_def is_code_length_code_def)
next
  case False
  with assms have e: "code edge = 18" by simp
  with assms repeat_count(1) [of d1 7 tmp d2 11] show ?thesis
    by (simp add: cl_step_def is_code_length_code_def)
qed


lemma cl_step_cases:
  assumes "cl_step cl_root ll total_cnt s = Inr s'"
  obtains edge d1 where "find_huffman_code (data s) cl_root = Inr (edge, d1)"
    "0 \<le> code edge" "code edge \<le> 15"
  | edge d1 tmp d2 where "find_huffman_code (data s) cl_root = Inr (edge, d1)"
    "code edge = 16" "0 < cnt s" "read_bits d1 2 = Inr (tmp, d2)"
  | edge d1 tmp d2 where "find_huffman_code (data s) cl_root = Inr (edge, d1)"
    "code edge = 17 \<or> code edge = 18"
    "read_bits d1 (if code edge = 17 then 3 else 7) = Inr (tmp, d2)"
proof -
  from assms obtain edge d1 where f: "find_huffman_code (data s) cl_root = Inr (edge, d1)"
    and c: "is_code_length_code (code edge)"
    by (auto simp: cl_step_def split: sum.splits prod.splits if_splits)
  consider "code edge \<le> 15" | "code edge = 16" | "code edge = 17 \<or> code edge = 18"
    using c unfolding is_code_length_code_def by arith
  then show thesis
  proof cases
    case 1
    with c f that(1) show ?thesis by (simp add: is_code_length_code_def)
  next
    case 2
    with assms f c obtain tmp d2 where "0 < cnt s" "read_bits d1 2 = Inr (tmp, d2)"
      by (auto simp: cl_step_def split: sum.splits prod.splits if_splits)
    with 2 f that(2) show ?thesis by blast
  next
    case 3
    with assms f c obtain tmp d2
      where "read_bits d1 (if code edge = 17 then 3 else 7) = Inr (tmp, d2)"
      by (auto simp: cl_step_def is_code_length_code_def Let_def
          split: sum.splits prod.splits if_splits)
    with 3 f that(3) show ?thesis by blast
  qed
qed

lemma repeat_loop_result:
  assumes "repeat_loop n v ll total_cnt s = Inr s'" "cl_arrays ll total_cnt s"
    "cnt s \<le> total_cnt"
  shows "cnt s + n \<le> total_cnt \<and>
     code_lengths_so_far ll s' = code_lengths_so_far ll s @ replicate n v \<and>
     cnt s' = cnt s + n \<and> data s' = data s \<and>
     previous_code_length s' = previous_code_length s \<and> cl_arrays ll total_cnt s'"
proof -
  have le: "cnt s + n \<le> total_cnt"
  proof (rule ccontr)
    assume "\<not> cnt s + n \<le> total_cnt"
    then have "total_cnt < cnt s + n" by simp
    from repeat_loop_exceeds [OF assms(3) this] assms(1) show False by simp
  qed
  from repeat_loop_ok [OF assms(2) le, of v] assms(1) le show ?thesis by auto
qed

lemma cl_step_invariant:
  assumes "cl_arrays ll t s" "cnt s < t" "cl_step cl_root ll t s = Inr s'"
  shows "cnt s' \<le> t \<and> cl_arrays ll t s' \<and> previous_is_last ll s'"
  using assms(3)
proof (cases rule: cl_step_cases)
  case (1 edge d1)
  let ?v = "nat (code edge)"
  from cl_step_literal [OF 1] assms(3)
  have s': "s' = (store_code_length ll ?v (s\<lparr>data := d1\<rparr>))\<lparr>previous_code_length := ?v\<rparr>"
    by simp
  have "code_lengths_so_far ll s' = code_lengths_so_far ll s @ [?v]"
    unfolding s' using code_lengths_so_far_store [of ll t "s\<lparr>data := d1\<rparr>" ?v] assms(1,2)
    by simp
  then show ?thesis using assms(1,2) by (simp add: s' previous_is_last_def)
next
  case (2 edge d1 tmp d2)
  from cl_step_16 [OF 2] assms(3)
  have r: "repeat_loop (unat tmp + 3) (previous_code_length s) ll t (s\<lparr>data := d2\<rparr>) = Inr s'"
    by simp
  from repeat_loop_result [OF r] assms(1,2) show ?thesis
    by (simp add: previous_is_last_def)
next
  case (3 edge d1 tmp d2)
  from cl_step_17_18 [OF 3] assms(3)
  have r: "repeat_loop (unat tmp + (if code edge = 17 then 3 else 11)) 0 ll t
      (s\<lparr>data := d2, previous_code_length := 0\<rparr>) = Inr s'"
    by simp
  from repeat_loop_result [OF r] assms(1,2) show ?thesis
    by (simp add: previous_is_last_def)
qed

lemma cl_loop_total:
  "cl_loop cl_root ll t s = Inr s' \<Longrightarrow> cl_arrays ll t s \<Longrightarrow> cnt s \<le> t
     \<Longrightarrow> cnt s' = t \<and> cl_arrays ll t s'"
proof (induction cl_root ll t s rule: cl_loop.induct)
  case (1 cl_root ll t s)
  show ?case
  proof (cases "cnt s < t")
    case False
    with "1.prems" show ?thesis by (simp add: cl_loop.simps [of cl_root ll t s])
  next
    case True
    with "1.prems"(1) obtain s1 where st: "cl_step cl_root ll t s = Inr s1"
      and l: "cl_loop cl_root ll t s1 = Inr s'"
      by (auto simp: cl_loop.simps [of cl_root ll t s] split: sum.splits)
    from cl_step_invariant [OF "1.prems"(2) True st]
    have "cnt s1 \<le> t" "cl_arrays ll t s1" by simp_all
    with "1.IH" [OF True st l] show ?thesis by simp
  qed
qed


text \<open>
  Claim C7. Take an iteration of the code-length loop (\<^verbatim>\<open>cnt < total\<close>) in which
  the tree yields a symbol. Symbol 16 as the first symbol fails. Otherwise symbol
  16 reads 2 extra bits, which give a count \<open>n\<close> from 3 to 6: when \<open>cnt + n\<close> is at
  most the total, the step succeeds and the sequence of code lengths grows by \<open>n\<close>
  times its last element, the code length emitted before; when \<open>cnt + n\<close> is above
  the total, the step fails with the diagnostic of the over-long repeat. The symbols
  17 and 18 fail in the same way when their count (3 extra bits plus 3, or 7 extra
  bits plus 11) goes over the total. Every successful step keeps
  \<^verbatim>\<open>previous_code_length\<close> equal to the last length produced. And when the loop
  succeeds, \<^verbatim>\<open>cnt\<close> is the total and the sequence has that many code lengths.
\<close>

theorem code_length_repeat:
  assumes "cl_arrays ll_code_cnt total_cnt s" and "cnt s < total_cnt"
    and "previous_is_last ll_code_cnt s"
    and "find_huffman_code (data s) cl_root = Inr (edge, d1)"
  shows "(code edge = 16 \<and> cnt s = 0 \<longrightarrow>
            cl_step cl_root ll_code_cnt total_cnt s
              = Inl (Repeat_code_16_without_previous, d1)) \<and>
         (code edge = 16 \<and> 0 < cnt s \<and> read_bits d1 2 = Inr (tmp, d2) \<longrightarrow>
            3 \<le> unat tmp + 3 \<and> unat tmp + 3 \<le> 6 \<and>
            (cnt s + (unat tmp + 3) \<le> total_cnt \<longrightarrow>
               (\<exists>s'. cl_step cl_root ll_code_cnt total_cnt s = Inr s' \<and>
                  code_lengths_so_far ll_code_cnt s'
                    = code_lengths_so_far ll_code_cnt s
                      @ replicate (unat tmp + 3) (last (code_lengths_so_far ll_code_cnt s)) \<and>
                  cnt s' = cnt s + (unat tmp + 3))) \<and>
            (total_cnt < cnt s + (unat tmp + 3) \<longrightarrow>
               cl_step cl_root ll_code_cnt total_cnt s = Inl (Repeat_code_exceeds_total, d2))) \<and>
         ((code edge = 17 \<or> code edge = 18) \<and>
          read_bits d1 (if code edge = 17 then 3 else 7) = Inr (tmp, d2) \<and>
          total_cnt < cnt s + (unat tmp + (if code edge = 17 then 3 else 11)) \<longrightarrow>
            cl_step cl_root ll_code_cnt total_cnt s = Inl (Repeat_code_exceeds_total, d2)) \<and>
         (\<forall>s'. cl_step cl_root ll_code_cnt total_cnt s = Inr s' \<longrightarrow>
            previous_is_last ll_code_cnt s') \<and>
         (\<forall>s'. cl_loop cl_root ll_code_cnt total_cnt s = Inr s' \<longrightarrow>
            cnt s' = total_cnt \<and> length (code_lengths_so_far ll_code_cnt s') = total_cnt)"
proof (intro conjI impI allI)
  assume "code edge = 16 \<and> cnt s = 0"
  with assms(4) show "cl_step cl_root ll_code_cnt total_cnt s
      = Inl (Repeat_code_16_without_previous, d1)"
    by (simp add: cl_step_def is_code_length_code_def)
next
  assume a: "code edge = 16 \<and> 0 < cnt s \<and> read_bits d1 2 = Inr (tmp, d2)"
  then have "unat tmp < 2 ^ 2" using read_bits_bound by blast
  then show "3 \<le> unat tmp + 3" "unat tmp + 3 \<le> 6" by simp_all
  from a have st: "cl_step cl_root ll_code_cnt total_cnt s =
      repeat_loop (unat tmp + 3) (previous_code_length s) ll_code_cnt total_cnt
        (s\<lparr>data := d2\<rparr>)"
    using cl_step_16 [OF assms(4), of tmp d2] by blast
  from a assms(3) have p: "previous_code_length s = last (code_lengths_so_far ll_code_cnt s)"
    by (simp add: previous_is_last_def)
  {
    assume le: "cnt s + (unat tmp + 3) \<le> total_cnt"
    from repeat_loop_ok [of ll_code_cnt total_cnt "s\<lparr>data := d2\<rparr>" "unat tmp + 3"
        "previous_code_length s"] assms(1) le
    show "\<exists>s'. cl_step cl_root ll_code_cnt total_cnt s = Inr s' \<and>
        code_lengths_so_far ll_code_cnt s'
          = code_lengths_so_far ll_code_cnt s
            @ replicate (unat tmp + 3) (last (code_lengths_so_far ll_code_cnt s)) \<and>
        cnt s' = cnt s + (unat tmp + 3)"
      unfolding st p by auto
  }
  {
    assume "total_cnt < cnt s + (unat tmp + 3)"
    with repeat_loop_exceeds [of "s\<lparr>data := d2\<rparr>" total_cnt "unat tmp + 3"] assms(2)
    show "cl_step cl_root ll_code_cnt total_cnt s = Inl (Repeat_code_exceeds_total, d2)"
      unfolding st by simp
  }
next
  assume a: "(code edge = 17 \<or> code edge = 18) \<and>
      read_bits d1 (if code edge = 17 then 3 else 7) = Inr (tmp, d2) \<and>
      total_cnt < cnt s + (unat tmp + (if code edge = 17 then 3 else 11))"
  then have st: "cl_step cl_root ll_code_cnt total_cnt s =
      repeat_loop (unat tmp + (if code edge = 17 then 3 else 11)) 0 ll_code_cnt total_cnt
        (s\<lparr>data := d2, previous_code_length := 0\<rparr>)"
    using cl_step_17_18 [OF assms(4), of tmp d2] by blast
  from a repeat_loop_exceeds [of "s\<lparr>data := d2, previous_code_length := 0\<rparr>" total_cnt
      "unat tmp + (if code edge = 17 then 3 else 11)"] assms(2)
  show "cl_step cl_root ll_code_cnt total_cnt s = Inl (Repeat_code_exceeds_total, d2)"
    unfolding st by simp
next
  fix s' assume "cl_step cl_root ll_code_cnt total_cnt s = Inr s'"
  from cl_step_invariant [OF assms(1,2) this] show "previous_is_last ll_code_cnt s'" by simp
next
  fix s' assume l: "cl_loop cl_root ll_code_cnt total_cnt s = Inr s'"
  from cl_loop_total [OF l assms(1)] assms(2)
  have c: "cnt s' = total_cnt" and a: "cl_arrays ll_code_cnt total_cnt s'" by simp_all
  show "cnt s' = total_cnt" by (rule c)
  from length_code_lengths_so_far [OF a] c
  show "length (code_lengths_so_far ll_code_cnt s') = total_cnt" by simp
qed


lemma cl_witness_states:
  "cl_arrays 257 258 (cl_start b)" "cl_arrays 257 258 (cl_after_8 b)"
  "cl_arrays 257 258 (cl_after_256_zeros b)"
  "previous_is_last 257 (cl_start b)" "previous_is_last 257 (cl_after_8 b)"
  "previous_is_last 257 (cl_after_256_zeros b)"
  "code_lengths_so_far 257 (cl_after_8 b) = [8]"
proof -
  show a: "cl_arrays 257 258 (cl_start b)"
    by (simp add: cl_arrays_def cl_start_def initial_cl_state_def)
  then show "cl_arrays 257 258 (cl_after_8 b)" by (simp add: cl_after_8_def)
  show "cl_arrays 257 258 (cl_after_256_zeros b)"
    by (simp add: cl_arrays_def cl_after_256_zeros_def cl_start_def initial_cl_state_def)
  show "previous_is_last 257 (cl_start b)"
    by (simp add: previous_is_last_def cl_start_def initial_cl_state_def)
  have "code_lengths_so_far 257 (cl_start b) = []"
    by (simp add: code_lengths_so_far_def cl_start_def initial_cl_state_def)
  moreover have "cnt (cl_start b) < 258" by (simp add: cl_start_def initial_cl_state_def)
  ultimately show c: "code_lengths_so_far 257 (cl_after_8 b) = [8]"
    using code_lengths_so_far_store [OF a, of 8] by (simp add: cl_after_8_def)
  then show "previous_is_last 257 (cl_after_8 b)"
    by (simp add: previous_is_last_def) (simp add: cl_after_8_def)
  show "previous_is_last 257 (cl_after_256_zeros b)"
    by (simp add: previous_is_last_def code_lengths_so_far_def cl_after_256_zeros_def
        cl_start_def initial_cl_state_def)
qed

lemmas cl_eval = find_huffman_code_def three_codes_def read_bits_def read_bits_loop.simps
  init_data_def buf_len_def increment_bit_position_def current_bit_def
  cl_start_def cl_after_8_def cl_after_256_zeros_def initial_cl_state_def
  store_code_length_def

text \<open>
  Symbol 16 first, symbol 16 after the length 8 (giving 8 8 8 8), symbols 16 and 18
  after 256 of 258 lengths, and the loop finishing with two more lengths.
\<close>

theorem code_length_repeat_witness:
  "cl_step three_codes 257 258 (cl_start [1])
     = Inl (Repeat_code_16_without_previous, (init_data [1] 0 new_file)\<lparr>byte_pos := 2\<rparr>) \<and>
   (\<exists>s'. cl_step three_codes 257 258 (cl_after_8 [1]) = Inr s' \<and>
      code_lengths_so_far 257 s' = [8, 8, 8, 8] \<and> cnt s' = 4 \<and> previous_is_last 257 s') \<and>
   cl_step three_codes 257 258 (cl_after_256_zeros [1])
     = Inl (Repeat_code_exceeds_total, (init_data [1] 0 new_file)\<lparr>byte_pos := 4\<rparr>) \<and>
   cl_step three_codes 257 258 (cl_after_256_zeros [3, 0])
     = Inl (Repeat_code_exceeds_total, (init_data [3, 0] 0 new_file)\<lparr>byte_pos := 1, buf_pos := 1\<rparr>) \<and>
   (\<exists>s'. cl_loop three_codes 257 258 (cl_after_256_zeros [0]) = Inr s' \<and> cnt s' = 258 \<and>
      length (code_lengths_so_far 257 s') = 258)"
proof -
  let ?leaf16 = "Node NULL NULL 16" and ?leaf18 = "Node NULL NULL 18"
  let ?d = "init_data [1] 0 new_file"
  have f0: "find_huffman_code (data (cl_start [1])) three_codes
      = Inr (?leaf16, ?d\<lparr>byte_pos := 2\<rparr>)"
    and f1: "find_huffman_code (data (cl_after_8 [1])) three_codes
      = Inr (?leaf16, ?d\<lparr>byte_pos := 2\<rparr>)"
    and f2: "find_huffman_code (data (cl_after_256_zeros [1])) three_codes
      = Inr (?leaf16, ?d\<lparr>byte_pos := 2\<rparr>)"
    and f3: "find_huffman_code (data (cl_after_256_zeros [3, 0])) three_codes
      = Inr (?leaf18, (init_data [3, 0] 0 new_file)\<lparr>byte_pos := 2\<rparr>)"
    by (simp_all add: cl_eval)
  have r1: "read_bits (?d\<lparr>byte_pos := 2\<rparr>) 2 = Inr (0, ?d\<lparr>byte_pos := 4\<rparr>)"
    and r3: "read_bits ((init_data [3, 0] 0 new_file)\<lparr>byte_pos := 2\<rparr>) 7
      = Inr (0, (init_data [3, 0] 0 new_file)\<lparr>byte_pos := 1, buf_pos := 1\<rparr>)"
    by (simp_all add: cl_eval)
  have c: "cnt (cl_start b) = 0" "cnt (cl_after_8 b) = 1" "cnt (cl_after_256_zeros b) = 256"
    for b by (simp_all add: cl_eval)
  have l: "\<exists>s'. cl_loop three_codes 257 258 (cl_after_256_zeros [0]) = Inr s'"
    by (simp add: cl_loop.simps cl_step_def is_code_length_code_def cl_eval)
  note w = cl_witness_states
  from code_length_repeat [OF w(1) _ w(4) f0, of 0 "?d"] c
  have t0: "cl_step three_codes 257 258 (cl_start [1])
     = Inl (Repeat_code_16_without_previous, ?d\<lparr>byte_pos := 2\<rparr>)" by simp
  from code_length_repeat [OF w(2) _ w(5) f1, of 0 "?d\<lparr>byte_pos := 4\<rparr>"] c r1 w(7)
  have t1: "\<exists>s'. cl_step three_codes 257 258 (cl_after_8 [1]) = Inr s' \<and>
      code_lengths_so_far 257 s' = [8, 8, 8, 8] \<and> cnt s' = 4 \<and> previous_is_last 257 s'"
    by (auto simp: numeral_3_eq_3)
  from code_length_repeat [OF w(3) _ w(6) f2, of 0 "?d\<lparr>byte_pos := 4\<rparr>"] c r1
  have t2: "cl_step three_codes 257 258 (cl_after_256_zeros [1])
     = Inl (Repeat_code_exceeds_total, ?d\<lparr>byte_pos := 4\<rparr>)" by simp
  from code_length_repeat [OF w(3) _ w(6) f3, of 0
      "(init_data [3, 0] 0 new_file)\<lparr>byte_pos := 1, buf_pos := 1\<rparr>"] c r3
  have t3: "cl_step three_codes 257 258 (cl_after_256_zeros [3, 0])
     = Inl (Repeat_code_exceeds_total,
         (init_data [3, 0] 0 new_file)\<lparr>byte_pos := 1, buf_pos := 1\<rparr>)" by simp
  have f4: "find_huffman_code (data (cl_after_256_zeros [0])) three_codes
      = Inr (Node NULL NULL 8, (init_data [0] 0 new_file)\<lparr>byte_pos := 1\<rparr>)"
    by (simp add: cl_eval)
  from code_length_repeat [OF w(3) _ w(6) f4, of 0 "?d"] c l
  have t4: "\<exists>s'. cl_loop three_codes 257 258 (cl_after_256_zeros [0]) = Inr s' \<and>
      cnt s' = 258 \<and> length (code_lengths_so_far 257 s') = 258"
    by auto
  from t0 t1 t2 t3 t4 show ?thesis by blast
qed

subsection \<open>Building the Huffman tree\<close>

lemma subtree_ok_paths: "subtree_ok t \<Longrightarrow> t \<noteq> NULL \<Longrightarrow> leaf_paths t \<noteq> {}"
  by (induction t) (auto split: if_splits)

lemma comparable_Cons [simp]: "comparable (a # p) (b # q) \<longleftrightarrow> a = b \<and> comparable p q"
  by (auto simp: comparable_def)

lemma comparable_Nil [simp]: "comparable [] q" "comparable p []"
  by (simp_all add: comparable_def)

lemma comparable_children:
  assumes "b = CHR ''0'' \<or> b = CHR ''1''"
  shows "(\<exists>p \<in> (#) (CHR ''0'') ` A \<union> (#) (CHR ''1'') ` B. comparable p (b # rest))
     = (\<exists>q \<in> (if b = CHR ''1'' then B else A). comparable q rest)"
  using assms by (auto simp add: bex_Un)

lemma insert_code_root:
  assumes "bit_string bits" "bits \<noteq> []" "i \<noteq> - 1" "subtree_ok l" "subtree_ok r"
  shows "if \<exists>p \<in> leaf_paths (Node l r (- 1)). comparable p bits
         then insert_code bits i (Node l r (- 1)) = Inl Code_position_taken
         else \<exists>l' r'. insert_code bits i (Node l r (- 1)) = Inr (Node l' r' (- 1)) \<and>
                subtree_ok l' \<and> subtree_ok r' \<and> (l' \<noteq> NULL \<or> r' \<noteq> NULL) \<and>
                leaf_paths (Node l' r' (- 1)) = insert bits (leaf_paths (Node l r (- 1)))"
  using assms
proof (induction bits arbitrary: l r)
  case Nil
  then show ?case by simp
next
  case (Cons b rest)
  let ?cur = "Node l r (- 1)"
  let ?tmp = "if b = CHR ''1'' then r else l"
  from Cons.prems(1) have b: "b = CHR ''0'' \<or> b = CHR ''1''" and rest: "bit_string rest"
    by (auto simp: bit_string_def)
  have tmp_ok: "subtree_ok ?tmp" using Cons.prems by simp
  have paths: "leaf_paths ?cur = (#) (CHR ''0'') ` leaf_paths l \<union> (#) (CHR ''1'') ` leaf_paths r"
    by simp
  have confl: "(\<exists>p \<in> leaf_paths ?cur. comparable p (b # rest))
      = (\<exists>q \<in> leaf_paths ?tmp. comparable q rest)"
    unfolding paths using comparable_children [OF b, of "leaf_paths l" "leaf_paths r" rest]
    by (simp add: if_distrib [of leaf_paths])
  show ?case
  proof (cases "rest = []")
    case True
    show ?thesis
    proof (cases "?tmp = NULL")
      case False
      then have "leaf_paths ?tmp \<noteq> {}" using tmp_ok by (intro subtree_ok_paths)
      then have "\<exists>q \<in> leaf_paths ?tmp. comparable q rest"
        using True by auto
      then show ?thesis using False True b confl by (auto simp: Let_def)
    next
      case N: True
      then have "\<not> (\<exists>q \<in> leaf_paths ?tmp. comparable q rest)" by simp
      then show ?thesis using N True b confl Cons.prems(3,4,5)
        by (auto simp: Let_def)
    qed
  next
    case False
    show ?thesis
    proof (cases "?tmp \<noteq> NULL \<and> code ?tmp \<noteq> - 1")
      case True
      then obtain l1 r1 c1 where t: "?tmp = Node l1 r1 c1" "c1 \<noteq> - 1"
        by (cases ?tmp) auto
      then have "[] \<in> leaf_paths ?tmp" by simp
      then have "\<exists>q \<in> leaf_paths ?tmp. comparable q rest"
        by (intro bexI [of _ "[]"]) simp_all
      then show ?thesis using True False b confl by (auto simp: Let_def)
    next
      case F: False
      let ?tmp1 = "if ?tmp = NULL then Node NULL NULL (- 1) else ?tmp"
      from F tmp_ok obtain l1 r1 where t1: "?tmp1 = Node l1 r1 (- 1)"
        and ok1: "subtree_ok l1" "subtree_ok r1"
        and p1: "leaf_paths ?tmp1 = leaf_paths ?tmp"
        by (cases ?tmp) (auto split: if_splits)
      have step: "insert_code (b # rest) i ?cur =
          (case insert_code rest i ?tmp1 of Inl e \<Rightarrow> Inl e
           | Inr t \<Rightarrow> Inr (if b = CHR ''1'' then Node l t (- 1) else Node t r (- 1)))"
        using F False b by (auto simp: Let_def)
      note IH = Cons.IH [OF rest False Cons.prems(3) ok1, folded t1]
      show ?thesis
      proof (cases "\<exists>q \<in> leaf_paths ?tmp. comparable q rest")
        case True
        with IH p1 have "insert_code rest i ?tmp1 = Inl Code_position_taken" by simp
        with True confl step show ?thesis by simp
      next
        case NC: False
        with IH p1 obtain l' r' where r: "insert_code rest i ?tmp1 = Inr (Node l' r' (- 1))"
          and ok': "subtree_ok l'" "subtree_ok r'" "l' \<noteq> NULL \<or> r' \<noteq> NULL"
          and p': "leaf_paths (Node l' r' (- 1)) = insert rest (leaf_paths ?tmp)"
          by auto
        let ?t = "Node l' r' (- 1)"
        have okt: "subtree_ok ?t" using ok' by simp
        have res: "insert_code (b # rest) i ?cur
            = Inr (if b = CHR ''1'' then Node l ?t (- 1) else Node ?t r (- 1))"
          using step r by simp
        show ?thesis
        proof (cases "b = CHR ''1''")
          case True
          then have "leaf_paths (Node l ?t (- 1)) = insert (b # rest) (leaf_paths ?cur)"
            using p' by auto
          with True NC confl res okt Cons.prems(4) show ?thesis by auto
        next
          case False
          then have "leaf_paths (Node ?t r (- 1)) = insert (b # rest) (leaf_paths ?cur)"
            using p' b by auto
          with False NC confl res okt Cons.prems(5) show ?thesis by auto
        qed
      qed
    qed
  qed
qed


fun conflict_free :: "string list \<Rightarrow> string set \<Rightarrow> bool" where
  "conflict_free [] S = True"
| "conflict_free (c # cs) S =
     (if c = [] then conflict_free cs S
      else (\<forall>p \<in> S. \<not> comparable p c) \<and> conflict_free cs (insert c S))"

lemma insert_code_root_ok:
  assumes "root_ok t" "bit_string bits" "0 \<le> i"
  shows "if bits \<noteq> [] \<and> (\<exists>p \<in> leaf_paths t. comparable p bits)
         then insert_code bits i t = Inl Code_position_taken
         else \<exists>t'. insert_code bits i t = Inr t' \<and> root_ok t' \<and>
                leaf_paths t' = (if bits = [] then leaf_paths t else insert bits (leaf_paths t))"
proof (cases "bits = []")
  case True
  with assms(1) show ?thesis by simp
next
  case False
  from assms(1) obtain l r where t: "t = Node l r (- 1)" and ok: "subtree_ok l" "subtree_ok r"
    by (auto simp: root_ok_def)
  from assms(3) have i: "i \<noteq> - 1" by simp
  from insert_code_root [OF assms(2) False i ok] False show ?thesis
    unfolding t root_ok_def by (auto split: if_splits)
qed

lemma insert_codes_root:
  assumes "root_ok t" "\<forall>h \<in> set hs. bit_string (take (len h) (huffman_code h))" "0 \<le> i"
  shows "if conflict_free (map (\<lambda>h. take (len h) (huffman_code h)) hs) (leaf_paths t)
         then \<exists>t'. insert_codes hs i t = Inr t' \<and> root_ok t'
         else insert_codes hs i t = Inl Code_position_taken"
  using assms
proof (induction hs arbitrary: t i)
  case Nil
  then show ?case by simp
next
  case (Cons h hs)
  let ?c = "take (len h) (huffman_code h)"
  from Cons.prems have bs: "bit_string ?c" by simp
  note ins = insert_code_root_ok [OF Cons.prems(1) bs Cons.prems(3)]
  show ?case
  proof (cases "?c \<noteq> [] \<and> (\<exists>p \<in> leaf_paths t. comparable p ?c)")
    case True
    with ins have "insert_code ?c i t = Inl Code_position_taken" by simp
    with True show ?thesis by auto
  next
    case False
    with ins obtain t' where r: "insert_code ?c i t = Inr t'" and ok: "root_ok t'"
      and p: "leaf_paths t' = (if ?c = [] then leaf_paths t else insert ?c (leaf_paths t))"
      by auto
    from Cons.prems have a: "\<forall>h \<in> set hs. bit_string (take (len h) (huffman_code h))"
      and b: "0 \<le> i + 1" by simp_all
    from Cons.IH [OF ok a b] r p False show ?thesis
      by (auto split: if_splits)
  qed
qed

lemma pairwise_ok_Cons:
  "pairwise_ok (c # cs) \<longleftrightarrow>
     (c \<noteq> [] \<longrightarrow> (\<forall>j < length cs. cs ! j \<noteq> [] \<longrightarrow> \<not> comparable c (cs ! j))) \<and>
     pairwise_ok cs"
proof (intro iffI conjI impI allI)
  assume a: "pairwise_ok (c # cs)"
  show "\<not> comparable c (cs ! j)" if "c \<noteq> []" "j < length cs" "cs ! j \<noteq> []" for j
    using a that unfolding pairwise_ok_def by (elim allE [of _ 0] allE [of _ "Suc j"]) simp
  show "pairwise_ok cs"
    unfolding pairwise_ok_def
  proof (intro allI impI)
    fix i j assume "i < j \<and> j < length cs \<and> cs ! i \<noteq> [] \<and> cs ! j \<noteq> []"
    then show "\<not> comparable (cs ! i) (cs ! j)"
      using a unfolding pairwise_ok_def
      by (elim allE [of _ "Suc i"] allE [of _ "Suc j"]) simp
  qed
next
  assume a: "(c \<noteq> [] \<longrightarrow> (\<forall>j < length cs. cs ! j \<noteq> [] \<longrightarrow> \<not> comparable c (cs ! j))) \<and>
     pairwise_ok cs"
  show "pairwise_ok (c # cs)"
    unfolding pairwise_ok_def
  proof (intro allI impI)
    fix i j
    assume h: "i < j \<and> j < length (c # cs) \<and> (c # cs) ! i \<noteq> [] \<and> (c # cs) ! j \<noteq> []"
    then obtain j' where j: "j = Suc j'" by (cases j) auto
    show "\<not> comparable ((c # cs) ! i) ((c # cs) ! j)"
    proof (cases i)
      case 0
      with h j a show ?thesis by simp
    next
      case (Suc i')
      with h j a show ?thesis unfolding pairwise_ok_def by simp
    qed
  qed
qed

lemma conflict_free_iff:
  "conflict_free cs S \<longleftrightarrow>
     (\<forall>j < length cs. cs ! j \<noteq> [] \<longrightarrow> (\<forall>p \<in> S. \<not> comparable p (cs ! j))) \<and> pairwise_ok cs"
proof (induction cs arbitrary: S)
  case Nil
  then show ?case by (simp add: pairwise_ok_def)
next
  case (Cons c cs)
  show ?case
    unfolding conflict_free.simps pairwise_ok_Cons Cons.IH length_Cons All_less_Suc2
    by (cases "c = []") (simp_all, blast)
qed


definition duplicate_code :: "huffman list \<Rightarrow> bool" where
  "duplicate_code codes \<longleftrightarrow>
     (\<exists>j \<in> {0..<length codes}. \<exists>i \<in> {0..<j}.
        len (codes ! i) \<noteq> 0 \<and> huffman_code (codes ! i) = huffman_code (codes ! j))"

lemma count_code_lengths_outcome:
  "if \<exists>l \<in> set ls. limit < l \<or> 15 < l
   then count_code_lengths ls limit counts = Inl Code_length_above_limit
   else \<exists>c. count_code_lengths ls limit counts = Inr c"
  by (induction ls arbitrary: counts) auto

lemma bit_string_Nil [simp]: "bit_string []"
  by (simp add: bit_string_def)

lemma pairwise_okD:
  assumes "pairwise_ok (map huffman_code codes)" "i < j" "j < length codes"
    "huffman_code (codes ! i) \<noteq> []" "huffman_code (codes ! j) \<noteq> []"
  shows "\<not> comparable (huffman_code (codes ! i)) (huffman_code (codes ! j))"
proof -
  from assms(2,3) have "i < length codes" by simp
  with assms show ?thesis
    unfolding pairwise_ok_def by (elim allE [of _ i] allE [of _ j]) simp
qed

lemma bit_string_code [simp]: "bit_string (get_huffman_code_string c n)"
  by (auto simp: bit_string_def get_huffman_code_string_def)

lemma length_code_string [simp]: "length (get_huffman_code_string c n) = n"
  by (simp add: get_huffman_code_string_def)

lemma assign_codes_shape:
  "length (assign_codes ls next) = length ls \<and>
   (\<forall>i < length ls. len (assign_codes ls next ! i) = ls ! i \<and>
      length (huffman_code (assign_codes ls next ! i)) = ls ! i \<and>
      bit_string (huffman_code (assign_codes ls next ! i)))"
proof (induction ls arbitrary: "next")
  case Nil
  then show ?case by simp
next
  case (Cons l ls)
  show ?case
    using Cons.IH by (auto simp: nth_Cons')
qed

lemma generate_huffman_codes_shape:
  assumes "generate_huffman_codes ls limit = Inr codes"
  shows "length codes = length ls"
    and "i < length ls \<Longrightarrow> len (codes ! i) = ls ! i"
    and "i < length ls \<Longrightarrow> length (huffman_code (codes ! i)) = ls ! i"
    and "i < length ls \<Longrightarrow> bit_string (huffman_code (codes ! i))"
  using assms assign_codes_shape
  by (auto simp: generate_huffman_codes_def split: if_splits sum.splits)

lemma pairwise_ok_codes:
  assumes "\<forall>i < length codes. length (huffman_code (codes ! i)) = len (codes ! i)"
  shows "pairwise_ok (map huffman_code codes) \<longleftrightarrow>
     \<not> (duplicate_code codes \<or> prefix_violation codes)"
proof
  assume ok: "pairwise_ok (map huffman_code codes)"
  show "\<not> (duplicate_code codes \<or> prefix_violation codes)"
  proof
    assume "duplicate_code codes \<or> prefix_violation codes"
    then show False
    proof
      assume "duplicate_code codes"
      then obtain i j where ij: "i < j" "j < length codes" "len (codes ! i) \<noteq> 0"
        "huffman_code (codes ! i) = huffman_code (codes ! j)"
        by (auto simp: duplicate_code_def)
      with assms have "huffman_code (codes ! i) \<noteq> []" "huffman_code (codes ! j) \<noteq> []"
        by (metis length_0_conv less_trans)+
      from pairwise_okD [OF ok ij(1,2) this] ij(4) show False
        by (simp add: comparable_def)
    next
      assume "prefix_violation codes"
      then obtain i j where ij: "i < length codes" "j < length codes" "len (codes ! i) \<noteq> 0"
        "strict_prefix (huffman_code (codes ! i)) (huffman_code (codes ! j))"
        by (auto simp: prefix_violation_def)
      with assms have ne: "huffman_code (codes ! i) \<noteq> []" by (metis length_0_conv)
      with ij(4) have ne': "huffman_code (codes ! j) \<noteq> []" by auto
      from ij(4) have neq: "i \<noteq> j" by auto
      have c: "comparable (huffman_code (codes ! i)) (huffman_code (codes ! j))"
        "comparable (huffman_code (codes ! j)) (huffman_code (codes ! i))"
        using ij(4) by (auto simp: comparable_def strict_prefix_def)
      from neq consider "i < j" | "j < i" by arith
      then show False
      proof cases
        case 1
        from pairwise_okD [OF ok 1 ij(2) ne ne'] c show False by simp
      next
        case 2
        from pairwise_okD [OF ok 2 ij(1) ne' ne] c show False by simp
      qed
    qed
  qed
next
  assume n: "\<not> (duplicate_code codes \<or> prefix_violation codes)"
  show "pairwise_ok (map huffman_code codes)"
    unfolding pairwise_ok_def
  proof (intro allI impI notI)
    fix i j
    assume h: "i < j \<and> j < length (map huffman_code codes) \<and>
        map huffman_code codes ! i \<noteq> [] \<and> map huffman_code codes ! j \<noteq> []"
      and c: "comparable (map huffman_code codes ! i) (map huffman_code codes ! j)"
    let ?ci = "huffman_code (codes ! i)" and ?cj = "huffman_code (codes ! j)"
    from h have ij: "i < j" "j < length codes" "i < length codes" "?ci \<noteq> []" "?cj \<noteq> []"
      by auto
    with assms have li: "len (codes ! i) \<noteq> 0" and lj: "len (codes ! j) \<noteq> 0"
      by (metis length_0_conv)+
    from c ij have "?ci = ?cj \<or> strict_prefix ?ci ?cj \<or> strict_prefix ?cj ?ci"
      by (auto simp: comparable_def strict_prefix_def)
    then show False
    proof (elim disjE)
      assume "?ci = ?cj"
      with ij li have "duplicate_code codes"
        unfolding duplicate_code_def
        by (intro bexI [of _ j] bexI [of _ i]) simp_all
      with n show False by simp
    next
      assume "strict_prefix ?ci ?cj"
      with ij li have "prefix_violation codes"
        unfolding prefix_violation_def
        by (intro bexI [of _ i] bexI [of _ j]) simp_all
      with n show False by simp
    next
      assume "strict_prefix ?cj ?ci"
      with ij lj have "prefix_violation codes"
        unfolding prefix_violation_def
        by (intro bexI [of _ j] bexI [of _ i]) simp_all
      with n show False by simp
    qed
  qed
qed

text \<open>
  Claim C5. For a vector of at most 288 code lengths (a longer one is refused
  before anything else), \<^verbatim>\<open>create_huffman_tree\<close> fails when a length is above the
  limit of the caller or above 15. Otherwise the codes are generated, and the build
  fails when two symbols have the same code or when the code of one symbol is a
  proper prefix of the code of another; in every other case it returns a tree.
  (\<^verbatim>\<open>malloc\<close> is taken to succeed.)
\<close>

theorem create_huffman_tree_outcome:
  assumes "length code_lengths \<le> 288"
  shows "if \<exists>l \<in> set code_lengths. limit < l \<or> 15 < l
         then create_huffman_tree code_lengths limit = Inl Code_length_above_limit
         else \<exists>codes. generate_huffman_codes code_lengths limit = Inr codes \<and>
                (if duplicate_code codes \<or> prefix_violation codes
                 then create_huffman_tree code_lengths limit = Inl Code_position_taken
                 else \<exists>root. create_huffman_tree code_lengths limit = Inr root)"
proof (cases "\<exists>l \<in> set code_lengths. limit < l \<or> 15 < l")
  case True
  with count_code_lengths_outcome [of code_lengths limit "replicate 16 0"] assms
  show ?thesis
    by (simp add: create_huffman_tree_def generate_huffman_codes_def)
next
  case False
  with count_code_lengths_outcome [of code_lengths limit "replicate 16 0"] assms
  obtain codes where g: "generate_huffman_codes code_lengths limit = Inr codes"
    by (auto simp: generate_huffman_codes_def)
  note sh = generate_huffman_codes_shape [OF g]
  have l: "\<forall>i < length codes. length (huffman_code (codes ! i)) = len (codes ! i)"
    using sh by simp
  have tk: "map (\<lambda>h. take (len h) (huffman_code h)) codes = map huffman_code codes"
    using l by (auto simp: list_eq_iff_nth_eq)
  have bs: "\<forall>h \<in> set codes. bit_string (take (len h) (huffman_code h))"
    using sh l by (auto simp: in_set_conv_nth)
  have r: "root_ok (Node NULL NULL (- 1))" by (simp add: root_ok_def)
  have cf: "conflict_free (map huffman_code codes) (leaf_paths (Node NULL NULL (- 1)))
      = (\<not> (duplicate_code codes \<or> prefix_violation codes))"
    by (simp add: conflict_free_iff pairwise_ok_codes [OF l])
  from insert_codes_root [OF r bs, of 0] cf g assms False show ?thesis
    by (auto simp: create_huffman_tree_def tk)
qed


text \<open>
  The lengths 1 1 give the tree of two leaves; 1 1 1 give the code 0 twice; 2 1 1
  give 00, 0 and 1, of which 0 is a prefix of 00; the lengths 8 with limit 7 and 16
  with limit 15 are too long.
\<close>

theorem create_huffman_tree_outcome_witness:
  "create_huffman_tree [1, 1] 15 = Inr two_leaves \<and>
   (\<exists>codes. generate_huffman_codes [1, 1] 15 = Inr codes \<and>
      \<not> duplicate_code codes \<and> \<not> prefix_violation codes) \<and>
   create_huffman_tree [1, 1, 1] 15 = Inl Code_position_taken \<and>
   (\<exists>codes. generate_huffman_codes [1, 1, 1] 15 = Inr codes \<and> duplicate_code codes) \<and>
   create_huffman_tree [2, 1, 1] 15 = Inl Code_position_taken \<and>
   (\<exists>codes. generate_huffman_codes [2, 1, 1] 15 = Inr codes \<and>
      \<not> duplicate_code codes \<and> prefix_violation codes) \<and>
   create_huffman_tree [8] 7 = Inl Code_length_above_limit \<and>
   create_huffman_tree [16] 15 = Inl Code_length_above_limit"
proof -
  have g1: "generate_huffman_codes [1, 1] 15
      = Inr [\<lparr>huffman_code = ''0'', len = 1\<rparr>, \<lparr>huffman_code = ''1'', len = 1\<rparr>]"
    and g2: "generate_huffman_codes [1, 1, 1] 15
      = Inr [\<lparr>huffman_code = ''0'', len = 1\<rparr>, \<lparr>huffman_code = ''1'', len = 1\<rparr>,
             \<lparr>huffman_code = ''0'', len = 1\<rparr>]"
    and g3: "generate_huffman_codes [2, 1, 1] 15
      = Inr [\<lparr>huffman_code = ''00'', len = 2\<rparr>, \<lparr>huffman_code = ''0'', len = 1\<rparr>,
             \<lparr>huffman_code = ''1'', len = 1\<rparr>]"
    by code_simp+
  have c1: "\<not> duplicate_code [\<lparr>huffman_code = ''0'', len = 1\<rparr>, \<lparr>huffman_code = ''1'', len = 1\<rparr>]"
    "\<not> prefix_violation [\<lparr>huffman_code = ''0'', len = 1\<rparr>, \<lparr>huffman_code = ''1'', len = 1\<rparr>]"
    and c2: "duplicate_code [\<lparr>huffman_code = ''0'', len = 1\<rparr>, \<lparr>huffman_code = ''1'', len = 1\<rparr>,
             \<lparr>huffman_code = ''0'', len = 1\<rparr>]"
    and c3: "\<not> duplicate_code [\<lparr>huffman_code = ''00'', len = 2\<rparr>, \<lparr>huffman_code = ''0'', len = 1\<rparr>,
             \<lparr>huffman_code = ''1'', len = 1\<rparr>]"
      "prefix_violation [\<lparr>huffman_code = ''00'', len = 2\<rparr>, \<lparr>huffman_code = ''0'', len = 1\<rparr>,
             \<lparr>huffman_code = ''1'', len = 1\<rparr>]"
    by code_simp+
  have t: "create_huffman_tree [1, 1] 15 = Inr two_leaves"
    by code_simp
  show ?thesis
    using create_huffman_tree_outcome [of "[1, 1]" 15]
      create_huffman_tree_outcome [of "[1, 1, 1]" 15]
      create_huffman_tree_outcome [of "[2, 1, 1]" 15]
      create_huffman_tree_outcome [of "[8]" 7]
      create_huffman_tree_outcome [of "[16]" 15]
    by (simp add: g1 g2 g3 c1 c2 c3 t del: One_nat_def)
qed

subsection \<open>The distance code of a fixed-Huffman block\<close>

lemma five_bit_tree: "create_huffman_tree (replicate 30 5) 15 = Inr five_bit_tree"
  by code_simp

lemma fixed_tree: "create_huffman_tree fixed_lengths 15 = Inr fixed_tree"
  by code_simp


definition abcabc_block :: decompression_data where
  "abcabc_block = (init_data [0x4B, 0x4C, 0x4A, 0x06, 0x22, 0x00] 0 new_file)\<lparr>byte_pos := 3\<rparr>"

lemmas block_eval = abcabc_block_def put_byte_def init_data_def new_file_def Let_def
  MAX_DISTANCE_def OUT_BUF_SIZE_def
  read_bits_def read_bits_loop.simps buf_len_def increment_bit_position_def current_bit_def
  emitted_def back_reference_01_def length_from_length_code_def distance_from_distance_code_def
  is_length_code_def is_distance_code_def is_literal_code_def is_literal_length_code_def
  length_data_def dist_data_def vb_def
  copy_bytes_from_distance_def copy_start_pos_def outcome_def
  expand_symbol_01_def find_huffman_code_def handle_literal_codes_def flush_if_full_def
  fixed_tree_def subtree.simps smod_int_alt_def

text \<open>
  Claim C1 does not hold of the code. In the block for abcabc the decoder reaches the
  distance bits 0 0 0 1 0 after a, b, c and the length 3. \<^verbatim>\<open>read_bits\<close> makes
  the first bit the lowest and returns 8; the tree of thirty codes of length 5,
  walked from the first bit, returns symbol 2. The fixed-block path goes on with
  distance code 8, reads three extra bits, gets the distance 17 and fails on the
  back reference; the block fails after abc. The path of the dynamic blocks, which
  decodes the same bits through the tree, gets the distance 3 and emits abcabc.
\<close>

theorem fixed_distance_bits_reversed:
  "create_huffman_tree fixed_lengths 15 = Inr fixed_tree \<and>
   create_huffman_tree (replicate 30 5) 15 = Inr five_bit_tree \<and>
   (case expand_symbol_01 abcabc_block fixed_tree of
      Inl e \<Rightarrow> Inl e
    | Inr (stop, d1) \<Rightarrow>
        (case expand_symbol_01 d1 fixed_tree of
           Inl e \<Rightarrow> Inl e
         | Inr (stop, d2) \<Rightarrow>
             (case expand_symbol_01 d2 fixed_tree of
                Inl e \<Rightarrow> Inl e
              | Inr (stop, d3) \<Rightarrow> find_huffman_code d3 fixed_tree)))
     = Inr (Node NULL NULL 257, abc_before_distance) \<and>
   emitted abc_before_distance = [0x61, 0x62, 0x63] \<and>
   read_bits abc_before_distance 5 = Inr (8, abc_before_distance\<lparr>byte_pos := 7\<rparr>) \<and>
   find_huffman_code abc_before_distance five_bit_tree
     = Inr (Node NULL NULL 2, abc_before_distance\<lparr>byte_pos := 7\<rparr>) \<and>
   back_reference_01 abc_before_distance 257
     = Inr (3, 17, abc_before_distance\<lparr>byte_pos := 2, buf_pos := 5\<rparr>) \<and>
   back_reference_10 abc_before_distance five_bit_tree 257
     = Inr (3, 3, abc_before_distance\<lparr>byte_pos := 7\<rparr>) \<and>
   outcome (copy_bytes_from_distance (abc_before_distance\<lparr>byte_pos := 2, buf_pos := 5\<rparr>) 3 17)
     = (Some Invalid_back_reference, [0x61, 0x62, 0x63]) \<and>
   outcome (copy_bytes_from_distance (abc_before_distance\<lparr>byte_pos := 7\<rparr>) 3 3)
     = (None, [0x61, 0x62, 0x63, 0x61, 0x62, 0x63]) \<and>
   map_option outcome (decompress_block_type_01 abcabc_block)
     = Some (Some Invalid_back_reference, [0x61, 0x62, 0x63])"
proof -
  note ev = block_eval abc_before_distance_def five_bit_tree_def back_reference_10_def
    copy_loop.simps next_copy_pos_def upt_rec
  have "map_option outcome (decompress_block_type_01 abcabc_block)
      = Some (Some Invalid_back_reference, [0x61, 0x62, 0x63])"
    unfolding decompress_block_type_01_def fixed_tree
    by (simp add: symbols_loop_01.simps ev)
  moreover have "(case expand_symbol_01 abcabc_block fixed_tree of
      Inl e \<Rightarrow> Inl e
    | Inr (stop, d1) \<Rightarrow>
        (case expand_symbol_01 d1 fixed_tree of
           Inl e \<Rightarrow> Inl e
         | Inr (stop, d2) \<Rightarrow>
             (case expand_symbol_01 d2 fixed_tree of
                Inl e \<Rightarrow> Inl e
              | Inr (stop, d3) \<Rightarrow> find_huffman_code d3 fixed_tree)))
     = Inr (Node NULL NULL 257, abc_before_distance)"
    by (simp add: ev)
  moreover have "emitted abc_before_distance = [0x61, 0x62, 0x63]"
    "read_bits abc_before_distance 5 = Inr (8, abc_before_distance\<lparr>byte_pos := 7\<rparr>)"
    "find_huffman_code abc_before_distance five_bit_tree
     = Inr (Node NULL NULL 2, abc_before_distance\<lparr>byte_pos := 7\<rparr>)"
    "back_reference_01 abc_before_distance 257
     = Inr (3, 17, abc_before_distance\<lparr>byte_pos := 2, buf_pos := 5\<rparr>)"
    "back_reference_10 abc_before_distance five_bit_tree 257
     = Inr (3, 3, abc_before_distance\<lparr>byte_pos := 7\<rparr>)"
    by (simp_all add: ev)
  moreover have
    "outcome (copy_bytes_from_distance (abc_before_distance\<lparr>byte_pos := 2, buf_pos := 5\<rparr>) 3 17)
     = (Some Invalid_back_reference, [0x61, 0x62, 0x63])"
    "outcome (copy_bytes_from_distance (abc_before_distance\<lparr>byte_pos := 7\<rparr>) 3 3)
     = (None, [0x61, 0x62, 0x63, 0x61, 0x62, 0x63])"
    by (simp_all add: ev)
  ultimately show ?thesis
    using fixed_tree five_bit_tree by blast
qed

subsection \<open>Canonical codes are ordered by length and symbol\<close>

lemma kraft_sum_Nil [simp]: "kraft_sum b [] = 0"
  by (simp add: kraft_sum_def)

lemma kraft_sum_Cons [simp]: "kraft_sum b (l # ls) = kraft_term b l + kraft_sum b ls"
  by (simp add: kraft_sum_def)

lemma kraft_sum_0 [simp]: "kraft_sum 0 ls = 0"
  by (induction ls) (auto simp: kraft_term_def)

lemma kraft_term_Suc:
  "kraft_term (Suc b) l = 2 * kraft_term b l + (if l = Suc b then 1 else 0)"
proof (cases "0 < l \<and> l \<le> b")
  case True
  then have "Suc b - l = Suc (b - l)" by arith
  with True show ?thesis by (simp add: kraft_term_def)
next
  case False
  then show ?thesis by (cases "l = Suc b") (auto simp: kraft_term_def)
qed

lemma kraft_sum_Suc: "kraft_sum (Suc b) ls = 2 * kraft_sum b ls + count_list ls (Suc b)"
  by (induction ls) (simp_all add: kraft_term_Suc)

lemma kraft_sum_mono: "b \<le> c \<Longrightarrow> kraft_sum b ls * 2 ^ (c - b) \<le> kraft_sum c ls"
proof (induction c)
  case 0
  then show ?case by simp
next
  case (Suc c)
  show ?case
  proof (cases "b = Suc c")
    case True
    then show ?thesis by simp
  next
    case False
    with Suc.prems have le: "b \<le> c" by simp
    then have "Suc c - b = Suc (c - b)" by arith
    then have "kraft_sum b ls * 2 ^ (Suc c - b) = 2 * (kraft_sum b ls * 2 ^ (c - b))"
      by simp
    also have "\<dots> \<le> 2 * kraft_sum c ls" using Suc.IH [OF le] by simp
    also have "\<dots> \<le> kraft_sum (Suc c) ls" by (simp add: kraft_sum_Suc)
    finally show ?thesis .
  qed
qed

lemma kraft_sum_15:
  assumes "\<forall>l \<in> set ls. l \<le> 15"
  shows "kraft_sum 15 ls = sum_list (map (\<lambda>l. 2 ^ (15 - l)) (filter (\<lambda>l. 0 < l) ls))"
  using assms by (induction ls) (auto simp: kraft_term_def)

lemma kraft_sum_bound:
  assumes "kraft_sum 15 ls \<le> 2 ^ 15" "b \<le> 15"
  shows "kraft_sum b ls \<le> 2 ^ b"
proof -
  have "kraft_sum b ls * 2 ^ (15 - b) \<le> 2 ^ 15"
    using kraft_sum_mono [OF assms(2), of ls] assms(1) by simp
  also have "(2::nat) ^ 15 = 2 ^ b * 2 ^ (15 - b)"
    using assms(2) by (simp flip: power_add)
  finally show ?thesis by simp
qed

lemma count_code_lengths_counts:
  "\<forall>l \<in> set ls. l \<le> limit \<and> l \<le> 15 \<Longrightarrow> length cs0 = 16 \<Longrightarrow>
   \<exists>cs. count_code_lengths ls limit cs0 = Inr cs \<and> length cs = 16 \<and>
     (\<forall>k < 16. cs ! k = cs0 ! k + of_nat (count_list ls k))"
proof (induction ls arbitrary: cs0)
  case Nil
  then show ?case by simp
next
  case (Cons l ls)
  let ?cs1 = "cs0[l := cs0 ! l + 1]"
  from Cons.prems have l: "l \<le> limit" "l \<le> 15" and rest: "\<forall>l \<in> set ls. l \<le> limit \<and> l \<le> 15"
    by simp_all
  from Cons.prems have len: "length ?cs1 = 16" by simp
  from Cons.IH [OF rest len] obtain cs where cs: "count_code_lengths ls limit ?cs1 = Inr cs"
    "length cs = 16" "\<forall>k < 16. cs ! k = ?cs1 ! k + of_nat (count_list ls k)"
    by blast
  have "\<forall>k < 16. cs ! k = cs0 ! k + of_nat (count_list (l # ls) k)"
  proof (intro allI impI)
    fix k :: nat
    assume k: "k < 16"
    with cs(3) have "cs ! k = ?cs1 ! k + of_nat (count_list ls k)" by simp
    with k Cons.prems(2) l show "cs ! k = cs0 ! k + of_nat (count_list (l # ls) k)"
      by (cases "k = l") simp_all
  qed
  with cs(1,2) l show ?case by simp
qed

lemma next_code_loop_result:
  "length nx = 16 \<Longrightarrow> 1 \<le> b \<Longrightarrow> b \<le> 16 \<Longrightarrow>
   c + counts ! (b - 1) = of_nat (kraft_sum (b - 1) L) \<Longrightarrow>
   \<forall>k. 1 \<le> k \<and> k < 16 \<longrightarrow> counts ! k = of_nat (count_list L k) \<Longrightarrow>
   length (next_code_loop counts b c nx) = 16 \<and>
   (\<forall>k < 16. next_code_loop counts b c nx ! k =
      (if b \<le> k then of_nat (2 * kraft_sum (k - 1) L) else nx ! k))"
proof (induction counts b c nx rule: next_code_loop.induct)
  case (1 counts b c nx)
  show ?case
  proof (cases "b < 16")
    case False
    with "1.prems" show ?thesis by (subst next_code_loop.simps, subst next_code_loop.simps) simp
  next
    case True
    define c' where "c' = push_bit 1 (c + counts ! (b - 1))"
    have step: "next_code_loop counts b c nx = next_code_loop counts (b + 1) c' (nx[b := c'])"
      using True by (subst next_code_loop.simps) (simp add: c'_def Let_def)
    have c': "c' = of_nat (2 * kraft_sum (b - 1) L)"
      using "1.prems"(4) by (simp add: c'_def push_bit_eq_mult)
    from "1.prems"(2) obtain b0 where b0: "b = Suc b0" by (cases b) simp_all
    have "c' + counts ! b = of_nat (kraft_sum b L)"
      using "1.prems"(5) True "1.prems"(2) by (simp add: c' b0 kraft_sum_Suc)
    then have inv: "c' + counts ! (b + 1 - 1) = of_nat (kraft_sum (b + 1 - 1) L)" by simp
    have IH: "length (next_code_loop counts (b + 1) c' (nx[b := c'])) = 16 \<and>
      (\<forall>k < 16. next_code_loop counts (b + 1) c' (nx[b := c']) ! k =
        (if b + 1 \<le> k then of_nat (2 * kraft_sum (k - 1) L) else nx[b := c'] ! k))"
      using "1.IH" [OF True c'_def _ _ _ inv "1.prems"(5)] "1.prems"(1) True by simp
    show ?thesis
      unfolding step
    proof (intro conjI allI impI)
      show "length (next_code_loop counts (b + 1) c' (nx[b := c'])) = 16" using IH by simp
    next
      fix k :: nat
      assume k: "k < 16"
      with IH have "next_code_loop counts (b + 1) c' (nx[b := c']) ! k =
        (if b + 1 \<le> k then of_nat (2 * kraft_sum (k - 1) L) else nx[b := c'] ! k)" by simp
      with k "1.prems"(1) True c'
      show "next_code_loop counts (b + 1) c' (nx[b := c']) ! k =
        (if b \<le> k then of_nat (2 * kraft_sum (k - 1) L) else nx ! k)"
        by (cases "k = b") auto
    qed
  qed
qed

lemma count_list_take_Suc:
  "i < length ls \<Longrightarrow>
   count_list (take (Suc i) ls) k = count_list (take i ls) k + (if ls ! i = k then 1 else 0)"
  by (simp add: take_Suc_conv_app_nth)

lemma count_list_take_mono:
  "i \<le> j \<Longrightarrow> count_list (take i ls) k \<le> count_list (take j ls) k"
proof -
  assume "i \<le> j"
  then have "take j ls = take i ls @ take (j - i) (drop i ls)"
    using take_add [of i "j - i" ls] by simp
  then show ?thesis by simp
qed

lemma count_list_take_less:
  assumes "i < j" "j \<le> length ls" "ls ! i = k"
  shows "count_list (take i ls) k < count_list (take j ls) k"
proof -
  from assms have "count_list (take (Suc i) ls) k = count_list (take i ls) k + 1"
    by (simp add: count_list_take_Suc)
  moreover from assms(1) have "count_list (take (Suc i) ls) k \<le> count_list (take j ls) k"
    by (intro count_list_take_mono) simp
  ultimately show ?thesis by simp
qed

lemma assign_codes_nth:
  "\<forall>l \<in> set ls. l < length nx \<Longrightarrow> i < length ls \<Longrightarrow> ls ! i \<noteq> 0 \<Longrightarrow>
   huffman_code (assign_codes ls nx ! i) =
     get_huffman_code_string (nx ! (ls ! i) + of_nat (count_list (take i ls) (ls ! i))) (ls ! i)"
proof (induction ls arbitrary: nx i)
  case Nil
  then show ?case by simp
next
  case (Cons l ls)
  show ?case
  proof (cases i)
    case 0
    with Cons.prems show ?thesis by simp
  next
    case (Suc i')
    with Cons.prems have i': "i' < length ls" "ls ! i' \<noteq> 0" by simp_all
    show ?thesis
    proof (cases "l = 0")
      case True
      from Cons.prems(1) have "\<forall>l \<in> set ls. l < length nx" by simp
      from Cons.IH [OF this i'] True Suc i' show ?thesis by simp
    next
      case False
      let ?nx = "nx[l := nx ! l + 1]"
      from Cons.prems(1) have "\<forall>l \<in> set ls. l < length ?nx" by simp
      from Cons.IH [OF this i'] False Suc i' Cons.prems(1) show ?thesis
        by (cases "l = ls ! i'") (simp_all add: add.assoc)
    qed
  qed
qed

lemma code_string_Suc:
  "get_huffman_code_string c (Suc n) =
     (if bit c n then CHR ''1'' else CHR ''0'') # get_huffman_code_string c n"
proof -
  have "[0..<Suc n] = 0 # map Suc [0..<n]"
    by (simp add: upt_conv_Cons map_Suc_upt del: upt_Suc)
  then show ?thesis
    by (simp add: get_huffman_code_string_def comp_def del: upt_Suc)
qed

lemma take_bit_Suc_most_nat:
  "take_bit (Suc n) (a :: nat) = (if bit a n then 2 ^ n else 0) + take_bit n a"
proof -
  have "int (take_bit (Suc n) a) = int ((if bit a n then 2 ^ n else 0) + take_bit n a)"
    using take_bit_Suc_from_most [of n "int a"] by (simp add: take_bit_of_nat bit_of_nat_iff_bit)
  then show ?thesis by (simp only: of_nat_eq_iff)
qed

lemma code_string_less:
  "get_huffman_code_string a n < get_huffman_code_string b n \<longleftrightarrow>
   take_bit n (unat a) < take_bit n (unat b)"
proof (induction n)
  case 0
  then show ?case by (simp add: get_huffman_code_string_def)
next
  case (Suc n)
  have c: "CHR ''0'' < CHR ''1''" by (simp add: less_char_def)
  define x y where "x = take_bit n (unat a)" and "y = take_bit n (unat b)"
  have l: "x < 2 ^ n" "y < 2 ^ n"
    by (simp_all add: x_def y_def)
  have ta: "take_bit (Suc n) (unat a) = (if bit a n then 2 ^ n else 0) + x"
    and tb: "take_bit (Suc n) (unat b) = (if bit b n then 2 ^ n else 0) + y"
    by (simp_all add: take_bit_Suc_most_nat bit_unsigned_iff x_def y_def)
  from Suc.IH have IH: "get_huffman_code_string a n < get_huffman_code_string b n \<longleftrightarrow> x < y"
    by (simp add: x_def y_def)
  show ?case
    using l c by (auto simp add: code_string_Suc ta tb IH)
qed

lemma generate_huffman_codes_next:
  assumes "length L \<le> 288" "\<forall>l \<in> set L. l \<le> 15 \<and> l \<le> limit"
  shows "\<exists>nx. length nx = 16 \<and>
           (\<forall>k. 1 \<le> k \<and> k < 16 \<longrightarrow> nx ! k = of_nat (2 * kraft_sum (k - 1) L)) \<and>
           generate_huffman_codes L limit = Inr (assign_codes L nx)"
proof -
  from assms(2) have "\<forall>l \<in> set L. l \<le> limit \<and> l \<le> 15" by blast
  from count_code_lengths_counts [OF this, of "replicate 16 0"]
  obtain cs where cs: "count_code_lengths L limit (replicate 16 0) = Inr cs" "length cs = 16"
    "\<forall>k < 16. cs ! k = replicate 16 0 ! k + of_nat (count_list L k)"
    by auto
  let ?counts = "cs[0 := 0]"
  let ?nx = "next_code_loop ?counts 1 0 (replicate 16 0)"
  have counts: "\<forall>k. 1 \<le> k \<and> k < 16 \<longrightarrow> ?counts ! k = of_nat (count_list L k)"
    using cs(2,3) by simp
  have "0 + ?counts ! (1 - 1) = of_nat (kraft_sum (1 - 1) L)"
    using cs(2) by simp
  from next_code_loop_result [OF _ _ _ this counts, of "replicate 16 0"]
  have nx: "length ?nx = 16"
    "\<forall>k < 16. ?nx ! k = (if 1 \<le> k then of_nat (2 * kraft_sum (k - 1) L) else replicate 16 0 ! k)"
    by simp_all
  have "generate_huffman_codes L limit = Inr (assign_codes L ?nx)"
    using assms(1) cs(1) by (simp add: generate_huffman_codes_def)
  moreover have "\<forall>k. 1 \<le> k \<and> k < 16 \<longrightarrow> ?nx ! k = of_nat (2 * kraft_sum (k - 1) L)"
    using nx(2) by simp
  ultimately show ?thesis using nx(1) by blast
qed

lemma canonical_value_bound:
  assumes "\<forall>l \<in> set L. l \<le> 15" "kraft_sum 15 L \<le> 2 ^ 15" "i < length L" "0 < L ! i"
  shows "2 * kraft_sum (L ! i - 1) L + count_list (take i L) (L ! i) < 2 ^ (L ! i)"
proof -
  from assms(4) obtain l0 where l0: "L ! i = Suc l0" by (cases "L ! i") simp_all
  from assms(1,3) have le: "L ! i \<le> 15" by (meson nth_mem)
  have "count_list (take i L) (L ! i) < count_list (take (length L) L) (L ! i)"
    using assms(3) by (intro count_list_take_less) simp_all
  then have "2 * kraft_sum l0 L + count_list (take i L) (L ! i) < kraft_sum (Suc l0) L"
    by (simp add: kraft_sum_Suc l0)
  also have "\<dots> \<le> 2 ^ Suc l0"
    using kraft_sum_bound [OF assms(2), of "Suc l0"] le l0 by simp
  finally show ?thesis by (simp add: l0)
qed

text \<open>
  Claim C6. For every vector \<open>L\<close> of at most 288 code lengths, each at most 15 and at
  most the limit, whose positive lengths satisfy the Kraft inequality
  \<open>\<Sum> 2 ^ (- l) \<le> 1\<close> (stated multiplied by \<open>2 ^ 15\<close>), \<^verbatim>\<open>generate_huffman_codes\<close>
  succeeds, the entry of symbol \<open>i\<close> has the length \<open>L ! i\<close> and a code string of exactly
  \<open>L ! i\<close> characters (the empty string, no code, when \<open>L ! i = 0\<close>), and for any two
  symbols of positive length the order of the pairs (code length, code string), the
  strings compared lexicographically, is the order of the pairs (code length, symbol index).
\<close>

theorem canonical_code_order:
  assumes "length L \<le> 288" "\<forall>l \<in> set L. l \<le> 15 \<and> l \<le> limit"
    "sum_list (map (\<lambda>l. 2 ^ (15 - l)) (filter (\<lambda>l. 0 < l) L)) \<le> (2::nat) ^ 15"
  shows "\<exists>codes. generate_huffman_codes L limit = Inr codes \<and> length codes = length L \<and>
    (\<forall>i < length L. len (codes ! i) = L ! i \<and> length (huffman_code (codes ! i)) = L ! i) \<and>
    (\<forall>i < length L. \<forall>j < length L. 0 < L ! i \<and> 0 < L ! j \<longrightarrow>
       ((len (codes ! i), huffman_code (codes ! i)) < (len (codes ! j), huffman_code (codes ! j)))
        = ((L ! i, i) < (L ! j, j)))"
proof -
  from generate_huffman_codes_next [OF assms(1,2)]
  obtain nx where nx: "length nx = 16"
    "\<forall>k. 1 \<le> k \<and> k < 16 \<longrightarrow> nx ! k = of_nat (2 * kraft_sum (k - 1) L)"
    "generate_huffman_codes L limit = Inr (assign_codes L nx)"
    by blast
  let ?codes = "assign_codes L nx"
  let ?v = "\<lambda>i. 2 * kraft_sum (L ! i - 1) L + count_list (take i L) (L ! i)"
  from assms(2) have le15: "\<forall>l \<in> set L. l \<le> 15" by blast
  with assms(3) have kraft: "kraft_sum 15 L \<le> 2 ^ 15"
    by (simp add: kraft_sum_15)
  from le15 nx(1) have inb: "\<forall>l \<in> set L. l < length nx" by fastforce
  have shape: "length ?codes = length L"
    "\<forall>i < length L. len (?codes ! i) = L ! i \<and> length (huffman_code (?codes ! i)) = L ! i"
    using assign_codes_shape [of L nx] by simp_all
  have str: "huffman_code (?codes ! i) = get_huffman_code_string (of_nat (?v i)) (L ! i)"
    and tb: "take_bit (L ! i) (unat (of_nat (?v i) :: 16 word)) = ?v i"
    if i: "i < length L" "0 < L ! i" for i
  proof -
    from i(1) le15 have "L ! i \<le> 15" by (meson nth_mem)
    with i(2) have l: "1 \<le> L ! i" "L ! i < 16" by simp_all
    with nx(2) have "nx ! (L ! i) = of_nat (2 * kraft_sum (L ! i - 1) L)" by blast
    with assign_codes_nth [OF inb i(1)] i(2)
    show "huffman_code (?codes ! i) = get_huffman_code_string (of_nat (?v i)) (L ! i)"
      by simp
    have b: "?v i < 2 ^ (L ! i)"
      by (rule canonical_value_bound [OF le15 kraft i])
    also have "(2::nat) ^ (L ! i) \<le> 2 ^ 16"
      using l(2) by (intro power_increasing) simp_all
    finally have "?v i mod 2 ^ LENGTH(16) = ?v i" by simp
    then have "unat (of_nat (?v i) :: 16 word) = ?v i"
      by (simp only: unat_of_nat)
    with b show "take_bit (L ! i) (unat (of_nat (?v i) :: 16 word)) = ?v i"
      by (simp add: take_bit_nat_eq_self)
  qed
  have order: "((len (?codes ! i), huffman_code (?codes ! i))
        < (len (?codes ! j), huffman_code (?codes ! j))) = ((L ! i, i) < (L ! j, j))"
    if i: "i < length L" "0 < L ! i" and j: "j < length L" "0 < L ! j" for i j
  proof (cases "L ! i = L ! j")
    case False
    with shape(2) i(1) j(1) show ?thesis by (auto simp: less_prod_def)
  next
    case True
    have "huffman_code (?codes ! i) < huffman_code (?codes ! j) \<longleftrightarrow> ?v i < ?v j"
      using tb [OF i] tb [OF j] True
      by (simp only: str [OF i] str [OF j] True code_string_less) 
    also have "\<dots> \<longleftrightarrow> count_list (take i L) (L ! j) < count_list (take j L) (L ! j)"
      by (simp add: True)
    also have "\<dots> \<longleftrightarrow> i < j"
    proof (cases i j rule: linorder_cases)
      case less
      with count_list_take_less [of i j L "L ! j"] j(1) True show ?thesis by simp
    next
      case equal
      then show ?thesis by simp
    next
      case greater
      with count_list_take_less [of j i L "L ! j"] i(1) show ?thesis by simp
    qed
    finally show ?thesis
      using shape(2) i(1) j(1) True by (simp add: less_prod_def)
  qed
  from nx(3) shape order show ?thesis by blast
qed

theorem canonical_code_order_witness:
  "length rfc_lengths \<le> 288 \<and> list_all (\<lambda>l. l \<le> 15 \<and> l \<le> 15) rfc_lengths \<and>
   sum_list (map (\<lambda>l. 2 ^ (15 - l)) (filter (\<lambda>l. 0 < l) rfc_lengths)) \<le> (2::nat) ^ 15 \<and>
   map huffman_code (case generate_huffman_codes rfc_lengths 15 of Inr codes \<Rightarrow> codes) =
     [''010'', ''011'', ''100'', ''101'', ''110'', ''00'', ''1110'', ''1111''] \<and>
   (\<exists>codes. generate_huffman_codes rfc_lengths 15 = Inr codes \<and>
      length codes = length rfc_lengths \<and>
      (\<forall>i < length rfc_lengths. len (codes ! i) = rfc_lengths ! i \<and>
         length (huffman_code (codes ! i)) = rfc_lengths ! i) \<and>
      (\<forall>i < length rfc_lengths. \<forall>j < length rfc_lengths.
         0 < rfc_lengths ! i \<and> 0 < rfc_lengths ! j \<longrightarrow>
         ((len (codes ! i), huffman_code (codes ! i)) < (len (codes ! j), huffman_code (codes ! j)))
          = ((rfc_lengths ! i, i) < (rfc_lengths ! j, j))))"
proof -
  have h1: "length rfc_lengths \<le> 288"
    and h2: "\<forall>l \<in> set rfc_lengths. l \<le> 15 \<and> l \<le> 15"
    and h3: "sum_list (map (\<lambda>l. 2 ^ (15 - l)) (filter (\<lambda>l. 0 < l) rfc_lengths)) \<le> (2::nat) ^ 15"
    by (simp_all add: rfc_lengths_def)
  have codes: "map huffman_code (case generate_huffman_codes rfc_lengths 15 of Inr codes \<Rightarrow> codes) =
     [''010'', ''011'', ''100'', ''101'', ''110'', ''00'', ''1110'', ''1111'']"
    by code_simp
  from h2 have h2': "list_all (\<lambda>l. l \<le> 15 \<and> l \<le> 15) rfc_lengths"
    by (simp only: list_all_iff)
  from h1 h2' h3 codes canonical_code_order [OF h1 h2 h3] show ?thesis
    by (intro conjI)
qed

end
